theory Spec2Isabelle
  imports Complex_Main "HOL-Library.Signed_Division"
begin

section \<open>The trajectory processor of Pteros\<close>

text \<open>
  A shallow embedding of \<^verbatim>\<open>src/analysis/trajectory_processor.cpp\<close>: the frame filter
  (\<^verbatim>\<open>is_frame_valid\<close>, \<^verbatim>\<open>is_end_of_interval\<close>), the reader thread
  (\<^verbatim>\<open>reader_thread_body\<close>), the set-up part of \<^verbatim>\<open>run\<close> and its two dispatch
  paths. C++ \<^verbatim>\<open>int\<close> is \<open>int\<close> (a run reads far fewer than \<open>2^31\<close> frames, and the
  counters only count frames). A \<^verbatim>\<open>float\<close> is the real number it stands for, and the
  arithmetic on floats rounds as single precision does (see below).
  Progress messages on \<^verbatim>\<open>cout\<close> are left out; the error report of the reader is kept.
\<close>

subsection \<open>Errors\<close>

text \<open>
  \<open>Pteros_error\<close> is the exception class of the library, with its message.
  \<open>Division_by_zero\<close> is the integer remainder by zero (undefined behaviour, a trap on the
  usual hardware: not a C++ exception, so no \<^verbatim>\<open>catch\<close> sees it) and
  \<open>Null_dereference\<close> is \<^verbatim>\<open>operator->\<close> of an empty \<^verbatim>\<open>boost::shared_ptr\<close>.
\<close>

datatype error = Pteros_error string | Division_by_zero | Null_dereference

subsection \<open>Single-precision arithmetic\<close>

text \<open>
  The values of type \<^verbatim>\<open>float\<close> (IEEE 754 binary32) are modelled by the real numbers they
  stand for; comparisons are those of the reals. The result of an arithmetic operation
  is the exact result rounded to the nearest float, ties to the even significand: the
  exponent \<open>e\<close> of \<open>x\<close> is the one with \<open>2^e \<le> \<bar>x\<bar> < 2^(e+1)\<close>, not below \<open>-126\<close> (the
  subnormal numbers) nor above \<open>127\<close>, and \<open>x\<close> is rounded to a multiple of \<open>2^(e-23)\<close>.
  Infinities and NaN are not modelled (no result here is beyond the largest float in
  a run with frame times and indices of any real trajectory).
\<close>

fun exp_up :: "nat \<Rightarrow> real \<Rightarrow> int" where
  "exp_up 0 y = 0"
| "exp_up (Suc k) y = (if 2 \<le> y then exp_up k (y / 2) + 1 else 0)"

fun exp_down :: "nat \<Rightarrow> real \<Rightarrow> int" where
  "exp_down 0 y = 0"
| "exp_down (Suc k) y = (if y < 1 then exp_down k (2 * y) - 1 else 0)"

definition float_exponent :: "real \<Rightarrow> int" where
  "float_exponent x = (if 1 \<le> \<bar>x\<bar> then exp_up 127 \<bar>x\<bar> else exp_down 126 \<bar>x\<bar>)"

definition round_half_even :: "real \<Rightarrow> int" where
  "round_half_even y =
     (let f = \<lfloor>y\<rfloor>; d = y - of_int f
      in if d < 1 / 2 then f else if 1 / 2 < d then f + 1 else if even f then f else f + 1)"

definition float_round :: "real \<Rightarrow> real" where
  "float_round x =
     (let u = 2 powi (float_exponent x - 23) in u * of_int (round_half_even (x / u)))"

text \<open>
  The conversion of an \<^verbatim>\<open>int\<close> to \<^verbatim>\<open>float\<close>, and the product and the sum of two floats.
\<close>

definition float_of_int :: "int \<Rightarrow> real" where
  "float_of_int n = float_round (of_int n)"

definition float_mul :: "real \<Rightarrow> real \<Rightarrow> real" where
  "float_mul a b = float_round (a * b)"

definition float_add :: "real \<Rightarrow> real \<Rightarrow> real" where
  "float_add a b = float_round (a + b)"

subsection \<open>Data\<close>

text \<open>A frame: coordinates and the time stamp (field \<^verbatim>\<open>t\<close>).\<close>

record Frame =
  coord :: "(real \<times> real \<times> real) list"
  frame_t :: real

text \<open>\<^verbatim>\<open>Frame_info\<close>; its fields carry the prefix \<open>fi_\<close> here.\<close>

record Frame_info =
  fi_absolute_time :: real
  fi_absolute_frame :: int
  fi_valid_frame :: int
  fi_win_size_frames :: int
  fi_win_size_time :: real
  fi_first_frame :: int
  fi_first_time :: real
  fi_last_frame :: int
  fi_last_time :: real

record Data_container =
  frame :: Frame
  frame_info :: Frame_info

text \<open>The members of \<^verbatim>\<open>Trajectory_processor\<close> that the filter and the reader use.\<close>

record Trajectory_processor =
  traj_files :: "string list"
  window_size_frames :: int
  window_size_time :: real
  first_frame :: int
  last_frame :: int
  first_time :: real
  last_time :: real
  skip :: int
  custom_start_time :: real
  custom_dt :: real
  log_interval :: int

subsection \<open>The frame filter\<close>

text \<open>
  \<^verbatim>\<open>(first_frame<0 || fr>=first_frame) && (first_time<0 || t>=first_time) && (skip<0 || fr%skip==0)\<close>,
  evaluated left to right with short circuit: the remainder is computed only when the
  first two conjuncts hold and \<^verbatim>\<open>skip<0\<close> does not. The remainder of C++ truncates
  (\<open>smod\<close>); by zero it is an error.
\<close>

definition is_frame_valid :: "Trajectory_processor \<Rightarrow> int \<Rightarrow> real \<Rightarrow> error + bool" where
  "is_frame_valid p fr tm =
     (if (first_frame p < 0 \<or> fr \<ge> first_frame p) \<and> (first_time p < 0 \<or> tm \<ge> first_time p)
      then (if skip p < 0 then Inr True
            else if skip p = 0 then Inl Division_by_zero
            else Inr (fr smod skip p = 0))
      else Inr False)"

definition is_end_of_interval :: "Trajectory_processor \<Rightarrow> int \<Rightarrow> real \<Rightarrow> bool" where
  "is_end_of_interval p fr tm =
     ((fr > last_frame p \<and> last_frame p \<ge> 0) \<or> (tm > last_time p \<and> last_time p \<ge> 0))"

subsection \<open>The reader thread\<close>

text \<open>
  A trajectory file, as the reader sees it: \<^verbatim>\<open>io_factory\<close> throws, or the file opens and
  \<^verbatim>\<open>read\<close> gives its frames one by one and then returns false (\<open>Eof\<close>) or throws.
\<close>

datatype read_end = Eof | Read_throws string

datatype traj_file = Opened "Frame list" read_end | Open_throws string

text \<open>
  What the reader does, in order: the calls of \<^verbatim>\<open>io_factory\<close>, the calls of
  \<^verbatim>\<open>read\<close> with the frame read (\<open>None\<close> when the call returned false or threw), the
  \<^verbatim>\<open>send\<close> and \<^verbatim>\<open>send_stop\<close> on the channel, and the error report.
\<close>

datatype reader_event =
    Io_factory string
  | Read "Frame option"
  | Send Data_container
  | Send_stop
  | Cout_error string

text \<open>The local variables of \<^verbatim>\<open>reader_thread_body\<close>.\<close>

record reader_state =
  abs_frame :: int
  valid_frame :: int
  saved_first_frame :: int
  saved_first_time :: real
  finished :: bool

text \<open>How a loop is left: normally, by a thrown \<open>Pteros_error\<close>, or by a fatal error.\<close>

datatype loop_exit = Normal | Thrown string | Fatal error

definition reader_init :: reader_state where
  "reader_init = \<lparr>abs_frame = -1, valid_frame = -1, saved_first_frame = -1,
     saved_first_time = -1, finished = False\<rparr>"

text \<open>
  The time stamp of the frame with absolute index \<open>n\<close>: the file's, or the override
  \<^verbatim>\<open>data->frame.t = custom_start_time + custom_dt*abs_frame\<close>, computed in \<^verbatim>\<open>float\<close> (the
  index is converted, the product and the sum are rounded) and stored in the frame
  before the two tests of the filter read it.
\<close>

definition frame_time :: "Trajectory_processor \<Rightarrow> int \<Rightarrow> Frame \<Rightarrow> real" where
  "frame_time p n f =
     (if custom_dt p \<ge> 0
      then float_add (custom_start_time p) (float_mul (custom_dt p) (float_of_int n))
      else frame_t f)"

text \<open>The container sent for an accepted frame; \<open>st\<close> is the state after the counters moved.\<close>

definition fill_container :: "Trajectory_processor \<Rightarrow> reader_state \<Rightarrow> Frame \<Rightarrow> real \<Rightarrow> Data_container" where
  "fill_container p st f tm =
     \<lparr>frame = f\<lparr>frame_t := tm\<rparr>,
      frame_info = \<lparr>fi_absolute_time = tm, fi_absolute_frame = abs_frame st,
        fi_valid_frame = valid_frame st,
        fi_win_size_frames = window_size_frames p, fi_win_size_time = window_size_time p,
        fi_first_frame = saved_first_frame st, fi_first_time = saved_first_time st,
        fi_last_frame = abs_frame st, fi_last_time = tm\<rparr>\<rparr>"

text \<open>The first acceptance records the frame and the time the run starts at.\<close>

definition accept :: "reader_state \<Rightarrow> real \<Rightarrow> reader_state" where
  "accept st tm =
     (let st1 = st\<lparr>valid_frame := valid_frame st + 1\<rparr>
      in if valid_frame st1 = 0
         then st1\<lparr>saved_first_frame := abs_frame st1, saved_first_time := tm\<rparr>
         else st1)"

text \<open>The loop over the frames of one file (\<^verbatim>\<open>while(true)\<close>).\<close>

fun read_frames ::
  "Trajectory_processor \<Rightarrow> reader_state \<Rightarrow> Frame list \<Rightarrow> read_end
    \<Rightarrow> reader_event list \<times> reader_state \<times> loop_exit" where
  "read_frames p st [] Eof = ([Read None], st, Normal)"
| "read_frames p st [] (Read_throws m) = ([Read None], st, Thrown m)"
| "read_frames p st (f # fs) e =
     (let st1 = st\<lparr>abs_frame := abs_frame st + 1\<rparr>;
          tm = frame_time p (abs_frame st1) f
      in if is_end_of_interval p (abs_frame st1) tm
         then ([Read (Some f), Send_stop], st1\<lparr>finished := True\<rparr>, Normal)
         else (case is_frame_valid p (abs_frame st1) tm of
             Inl err \<Rightarrow> ([Read (Some f)], st1, Fatal err)
           | Inr False \<Rightarrow>
               (case read_frames p st1 fs e of (evs, st', ex) \<Rightarrow> (Read (Some f) # evs, st', ex))
           | Inr True \<Rightarrow>
               (let st2 = accept st1 tm
                in case read_frames p st2 fs e of (evs, st', ex) \<Rightarrow>
                     (Read (Some f) # Send (fill_container p st2 f tm) # evs, st', ex))))"

text \<open>The loop over the files (\<^verbatim>\<open>BOOST_FOREACH(string& fname, traj_files)\<close>).\<close>

fun read_files ::
  "Trajectory_processor \<Rightarrow> (string \<Rightarrow> traj_file) \<Rightarrow> reader_state \<Rightarrow> string list
    \<Rightarrow> reader_event list \<times> reader_state \<times> loop_exit" where
  "read_files p fsys st [] = ([], st, Normal)"
| "read_files p fsys st (fname # rest) =
     (case fsys fname of
        Open_throws m \<Rightarrow> ([Io_factory fname], st, Thrown m)
      | Opened fs e \<Rightarrow>
          (case read_frames p st fs e of
             (evs, st', Normal) \<Rightarrow>
               if finished st' then (Io_factory fname # evs, st', Normal)
               else (case read_files p fsys st' rest of
                       (evs', st'', ex) \<Rightarrow> (Io_factory fname # evs @ evs', st'', ex))
           | (evs, st', ex) \<Rightarrow> (Io_factory fname # evs, st', ex)))"

text \<open>
  The whole thread: the events, and the fatal error that ended the process, if any.
  A thrown \<open>Pteros_error\<close> is caught: stop is sent and the message printed.
\<close>

definition reader_thread_body ::
  "Trajectory_processor \<Rightarrow> (string \<Rightarrow> traj_file) \<Rightarrow> reader_event list \<times> error option" where
  "reader_thread_body p fsys =
     (case read_files p fsys reader_init (traj_files p) of
        (evs, st, Normal) \<Rightarrow> (evs @ [Send_stop], None)
      | (evs, st, Thrown m) \<Rightarrow> (evs @ [Send_stop, Cout_error m], None)
      | (evs, st, Fatal err) \<Rightarrow> (evs, Some err))"

subsection \<open>The set-up part of \<^verbatim>\<open>run\<close>\<close>

text \<open>
  The file formats \<^verbatim>\<open>run\<close> switches on; \<open>OTHER_FILE\<close> stands for every enumerator the
  \<^verbatim>\<open>switch\<close> has no case for. \<^verbatim>\<open>recognize_format\<close> itself is a parameter \<open>rf\<close>.
\<close>

datatype file_format =
  PDB_FILE | GRO_FILE | PTTOP_FILE | TRR_FILE | XTC_FILE | DCD_FILE | OTHER_FILE

text \<open>
  An options node: its unnamed string values and its named values by type;
  \<open>get_value\<close> is \<^verbatim>\<open>get_value<T>(key, default)\<close>.
\<close>

record Options_tree =
  unnamed_values :: "string list"
  string_values :: "string \<rightharpoonup> string"
  int_values :: "string \<rightharpoonup> int"
  float_values :: "string \<rightharpoonup> real"

definition get_value :: "(string \<rightharpoonup> 'a) \<Rightarrow> string \<Rightarrow> 'a \<Rightarrow> 'a" where
  "get_value m k d = (case m k of None \<Rightarrow> d | Some v \<Rightarrow> v)"

text \<open>What \<^verbatim>\<open>run\<close> does to the outside before it dispatches, in order.\<close>

datatype run_event =
    Dump_input string
  | System_clear
  | System_load string
  | System_copy nat
  | Set_buffer_size int
  | Start_reader_thread

text \<open>
  The loop that sorts the files of the trajectory block into the structure file, the
  topology file and the trajectory files (the empty string is "none yet").
\<close>

fun sort_files ::
  "(string \<Rightarrow> file_format) \<Rightarrow> string list \<Rightarrow> string \<times> string \<times> string list
    \<Rightarrow> error + string \<times> string \<times> string list" where
  "sort_files rf [] acc = Inr acc"
| "sort_files rf (s # ss) (structure_file, top_file, tfs) =
     (case rf s of
        PDB_FILE \<Rightarrow>
          if structure_file \<noteq> [] then Inl (Pteros_error ''Only one structure file is allowed!'')
          else sort_files rf ss (s, top_file, tfs)
      | GRO_FILE \<Rightarrow>
          if structure_file \<noteq> [] then Inl (Pteros_error ''Only one structure file is allowed!'')
          else sort_files rf ss (s, top_file, tfs)
      | PTTOP_FILE \<Rightarrow>
          if top_file \<noteq> [] then Inl (Pteros_error ''Only one topology file is allowed!'')
          else sort_files rf ss (structure_file, s, tfs)
      | TRR_FILE \<Rightarrow> sort_files rf ss (structure_file, top_file, tfs @ [s])
      | XTC_FILE \<Rightarrow> sort_files rf ss (structure_file, top_file, tfs @ [s])
      | DCD_FILE \<Rightarrow> sort_files rf ss (structure_file, top_file, tfs @ [s])
      | OTHER_FILE \<Rightarrow> sort_files rf ss (structure_file, top_file, tfs))"

text \<open>
  The files \<^verbatim>\<open>sys1->load\<close> is called on. In the last branch the source builds a
  \<open>Pteros_error\<close> and drops it (there is no \<^verbatim>\<open>throw\<close>): nothing is loaded, nothing raised.
\<close>

definition files_to_load :: "string \<Rightarrow> string \<Rightarrow> string list" where
  "files_to_load structure_file top_file =
     (if structure_file \<noteq> [] \<and> top_file = [] then [structure_file]
      else if structure_file = [] \<and> top_file \<noteq> [] then [top_file]
      else if structure_file \<noteq> [] \<and> top_file \<noteq> [] then [structure_file, top_file]
      else [])"

text \<open>\<^verbatim>\<open>System::load\<close> can throw; \<open>ld\<close> says with what, for each file.\<close>

fun load_all :: "(string \<Rightarrow> error option) \<Rightarrow> string list \<Rightarrow> run_event list \<times> error option" where
  "load_all ld [] = ([], None)"
| "load_all ld (f # fs) =
     (case ld f of
        Some err \<Rightarrow> ([System_load f], Some err)
      | None \<Rightarrow> (case load_all ld fs of (evs, r) \<Rightarrow> (System_load f # evs, r)))"

text \<open>The members read from the trajectory block, with the two adjustments of the overrides.\<close>

definition get_parameters :: "Options_tree \<Rightarrow> string list \<Rightarrow> int \<Rightarrow> Trajectory_processor" where
  "get_parameters trj tfs li =
     (let cst = get_value (float_values trj) ''custom_start_time'' (-1);
          cdt = get_value (float_values trj) ''custom_dt'' (-1);
          cdt1 = (if cst \<ge> 0 \<and> cdt = -1 then 1 else cdt);
          cst1 = (if cst = -1 \<and> cdt1 \<ge> 0 then 0 else cst)
      in \<lparr>traj_files = tfs,
          window_size_frames = get_value (int_values trj) ''window_size_frames'' (-1),
          window_size_time = get_value (float_values trj) ''window_size_time'' (-1),
          first_frame = get_value (int_values trj) ''first_frame'' (-1),
          last_frame = get_value (int_values trj) ''last_frame'' (-1),
          first_time = get_value (float_values trj) ''first_time'' (-1),
          last_time = get_value (float_values trj) ''last_time'' (-1),
          skip = get_value (int_values trj) ''skip'' (-1),
          custom_start_time = cst1,
          custom_dt = cdt1,
          log_interval = li\<rparr>)"

text \<open>
  \<^verbatim>\<open>run\<close> up to the start of the reader thread. \<open>n\<close> is \<^verbatim>\<open>consumers.size()\<close>, \<open>li\<close> the
  member \<^verbatim>\<open>log_interval\<close>, \<open>options\<close> the root node and \<open>trj\<close> its node
  \<^verbatim>\<open>trajectory\<close>. The result is what was done, and the error thrown or the members and
  the buffer size. The numbers streamed into the two range messages are left out.
\<close>

definition run_setup ::
  "nat \<Rightarrow> int \<Rightarrow> (string \<Rightarrow> file_format) \<Rightarrow> (string \<Rightarrow> error option) \<Rightarrow> Options_tree \<Rightarrow> Options_tree
    \<Rightarrow> run_event list \<times> (error + Trajectory_processor \<times> int)" where
  "run_setup n li rf ld options trj =
     (if n = 0 then ([], Inl (Pteros_error ''No consumers are connected to trajectory processor!''))
      else
        let dump_file = get_value (string_values options) ''dump_input'' [];
            ev1 = (if dump_file \<noteq> [] then [Dump_input dump_file] else [])
        in case sort_files rf (unnamed_values trj) ([], [], []) of
             Inl err \<Rightarrow> (ev1, Inl err)
           | Inr (structure_file, top_file, tfs) \<Rightarrow>
               if tfs = [] then (ev1, Inl (Pteros_error ''At least one trajectory file is required!''))
               else (case load_all ld (files_to_load structure_file top_file) of
                   (ev2, Some err) \<Rightarrow> (ev1 @ System_clear # ev2, Inl err)
                 | (ev2, None) \<Rightarrow>
                     let ev3 = map System_copy [1..<n];
                         p = get_parameters trj tfs li;
                         done = ev1 @ System_clear # ev2 @ ev3
                     in if first_frame p \<ge> 0 \<and> last_frame p \<ge> 0 \<and> last_frame p < first_frame p
                        then (done, Inl (Pteros_error ''Last frame is smaller that first frame''))
                        else if first_time p \<ge> 0 \<and> last_time p \<ge> 0 \<and> last_time p < first_time p
                        then (done, Inl (Pteros_error ''Last time is smaller that first time''))
                        else
                          let buf_size = get_value (int_values options) ''buffer_size'' 10
                          in (done @ [Set_buffer_size buf_size, Start_reader_thread],
                              Inr (p, buf_size))))"

subsection \<open>The channel\<close>

text \<open>
  \<^verbatim>\<open>Data_channel\<close> is a channel of \<^verbatim>\<open>boost::shared_ptr<Data_container>\<close>, a pointer that
  can be empty (\<open>None\<close>).
\<close>

type_synonym Data_ptr = "Data_container option"

record 'a Message_channel =
  queue :: "'a list"
  stop_requested :: bool
  buffer_size :: int

text \<open>
  Modelled from the spec: the class of \<^verbatim>\<open>Data_channel\<close> is declared in a header that is
  not among the sources. \<open>send(item)\<close> blocks while the buffer is at capacity (\<open>None\<close>: the
  caller cannot step), and returns once enqueued or immediately if closed for send.
\<close>

definition channel_send :: "'a \<Rightarrow> 'a Message_channel \<Rightarrow> 'a Message_channel option" where
  "channel_send x ch =
     (if stop_requested ch then Some ch
      else if int (length (queue ch)) \<ge> buffer_size ch then None
      else Some (ch\<lparr>queue := queue ch @ [x]\<rparr>))"

text \<open>
  Modelled from the spec: \<open>receive\<close> (spelled \<^verbatim>\<open>recieve\<close> in the source, with the item as
  a reference parameter \<open>cur\<close> and the flag returned) blocks while empty and not yet
  closed, and returns false only after \<open>send_stop\<close> has been called and the buffer is
  drained; the order is first in, first out.
\<close>

definition channel_recieve :: "'a Message_channel \<Rightarrow> 'a \<Rightarrow> (bool \<times> 'a \<times> 'a Message_channel) option" where
  "channel_recieve ch cur =
     (case queue ch of
        x # xs \<Rightarrow> Some (True, x, ch\<lparr>queue := xs\<rparr>)
      | [] \<Rightarrow> if stop_requested ch then Some (False, cur, ch) else None)"

text \<open>Modelled from the spec: \<open>send_stop\<close> marks the channel closed and is idempotent.\<close>

definition channel_send_stop :: "'a Message_channel \<Rightarrow> 'a Message_channel" where
  "channel_send_stop ch = ch\<lparr>stop_requested := True\<rparr>"

text \<open>Modelled from the spec: \<open>empty\<close> is a snapshot of the buffer.\<close>

definition channel_empty :: "'a Message_channel \<Rightarrow> bool" where
  "channel_empty ch = (queue ch = [])"

definition new_channel :: "int \<Rightarrow> 'a Message_channel" where
  "new_channel buf_size = \<lparr>queue = [], stop_requested = False, buffer_size = buf_size\<rparr>"

subsection \<open>The threads of a run\<close>

text \<open>
  The reader thread, the thread that called \<^verbatim>\<open>run\<close> (the dispatcher) and, with two or
  more consumers, one worker thread for each. A run is a schedule, the list of the
  threads in the order they take their steps; a thread that is blocked or has finished
  leaves the state as it is. One step is one operation on a channel, with the thread's
  own work up to the next one.
\<close>

datatype thread = Reader_thread | Dispatcher | Worker nat

text \<open>
  Where the dispatcher is in the second half of \<^verbatim>\<open>run\<close>:
  \<^item> \<open>Pre_process\<close>: before \<^verbatim>\<open>consumers[0]->pre_process_handler()\<close> (one consumer);
  \<^item> \<open>Recieve_loop\<close>: at \<^verbatim>\<open>while(channel.recieve(data))\<close>, of either branch;
  \<^item> \<open>Fan_send i dr\<close>: in the \<^verbatim>\<open>BOOST_FOREACH\<close> over the worker channels, before
    \<^verbatim>\<open>ch->send(data)\<close> on channel \<open>i\<close>; \<open>dr\<close> says that this is the second loop;
  \<^item> \<open>Drain_test\<close>: at \<^verbatim>\<open>while(!channel.empty())\<close>;
  \<^item> \<open>Drain_recieve\<close>: at \<^verbatim>\<open>channel.recieve(data)\<close> in the body of that loop;
  \<^item> \<open>Stop_workers i\<close>: before \<^verbatim>\<open>ch->send_stop()\<close> on worker channel \<open>i\<close>;
  \<^item> \<open>Post_process\<close>: at \<^verbatim>\<open>consumers[0]->post_process_handler(data->frame_info)\<close>;
  \<^item> \<open>Join_reader\<close>, \<open>Join_workers\<close>: at \<^verbatim>\<open>reader_thread.join()\<close> and
    \<^verbatim>\<open>worker_threads.join_all()\<close>; \<open>Returned\<close>: \<^verbatim>\<open>run\<close> has returned.
\<close>

datatype dispatcher_pc =
    Pre_process
  | Recieve_loop
  | Fan_send nat bool
  | Drain_test
  | Drain_recieve
  | Stop_workers nat
  | Post_process
  | Join_reader
  | Join_workers
  | Returned

datatype worker_pc = W_pre_process | W_recieve | W_done

record worker =
  wpc :: worker_pc
  wdata :: Data_ptr

text \<open>The calls into the consumers and onto the consumers' channels.\<close>

datatype event =
    Pre_process_handler nat
  | Consume_frame nat Data_ptr
  | Post_process_handler nat "Frame_info option"
  | Worker_send nat Data_ptr
  | Worker_send_stop nat

record system =
  status :: "error option"
  reader :: "reader_event list"
  reader_fatal :: "error option"
  channel :: "Data_ptr Message_channel"
  nconsumers :: nat
  dpc :: dispatcher_pc
  data :: Data_ptr
  worker_channels :: "Data_ptr Message_channel list"
  workers :: "worker list"
  trace :: "event list"

text \<open>
  The state when the reader thread has been started: \<open>rd\<close> is what the reader will do
  (the result of \<^verbatim>\<open>reader_thread_body\<close>: the reader uses no result of a call on the
  channel, so what it does is the same under every schedule). The pointer \<^verbatim>\<open>data\<close> of
  the dispatcher starts empty. With two or more consumers the channels and threads of the workers are there from the
  start (the source creates them one after the other before its first receive).
\<close>

definition init_system :: "nat \<Rightarrow> int \<Rightarrow> reader_event list \<times> error option \<Rightarrow> system" where
  "init_system n buf_size rd =
     \<lparr>status = None, reader = fst rd, reader_fatal = snd rd,
      channel = new_channel buf_size, nconsumers = n,
      dpc = (if n > 1 then Recieve_loop else Pre_process),
      data = None,
      worker_channels = (if n > 1 then replicate n (new_channel buf_size) else []),
      workers = (if n > 1 then replicate n \<lparr>wpc = W_pre_process, wdata = None\<rparr> else []),
      trace = []\<rparr>"

text \<open>
  The reader takes its next action. A fatal error at its end takes the process down.
\<close>

definition reader_step :: "system \<Rightarrow> system" where
  "reader_step s =
     (case reader s of
        [] \<Rightarrow> (case reader_fatal s of None \<Rightarrow> s | Some err \<Rightarrow> s\<lparr>status := Some err\<rparr>)
      | Send d # evs \<Rightarrow>
          (case channel_send (Some d) (channel s) of
             None \<Rightarrow> s
           | Some ch \<Rightarrow> s\<lparr>channel := ch, reader := evs\<rparr>)
      | Send_stop # evs \<Rightarrow> s\<lparr>channel := channel_send_stop (channel s), reader := evs\<rparr>
      | _ # evs \<Rightarrow> s\<lparr>reader := evs\<rparr>)"

text \<open>
  The body of the two receive loops: with several consumers the item goes to every
  worker channel, with one it goes to \<^verbatim>\<open>consume_frame\<close>. \<open>dr\<close> tells the second loop.
\<close>

definition deliver :: "bool \<Rightarrow> system \<Rightarrow> system" where
  "deliver dr s =
     (if nconsumers s > 1 then s\<lparr>dpc := Fan_send 0 dr\<rparr>
      else s\<lparr>trace := trace s @ [Consume_frame 0 (data s)],
             dpc := (if dr then Drain_test else Recieve_loop)\<rparr>)"

definition dispatcher_step :: "system \<Rightarrow> system" where
  "dispatcher_step s =
     (case dpc s of
        Pre_process \<Rightarrow> s\<lparr>trace := trace s @ [Pre_process_handler 0], dpc := Recieve_loop\<rparr>
      | Recieve_loop \<Rightarrow>
          (case channel_recieve (channel s) (data s) of
             None \<Rightarrow> s
           | Some (ok, d, ch) \<Rightarrow>
               if ok then deliver False (s\<lparr>channel := ch, data := d\<rparr>)
               else s\<lparr>channel := ch, data := d, dpc := Drain_test\<rparr>)
      | Fan_send i dr \<Rightarrow>
          (case channel_send (data s) (worker_channels s ! i) of
             None \<Rightarrow> s
           | Some ch \<Rightarrow>
               s\<lparr>worker_channels := (worker_channels s)[i := ch],
                 trace := trace s @ [Worker_send i (data s)],
                 dpc := (if i + 1 < nconsumers s then Fan_send (i + 1) dr
                         else if dr then Drain_test else Recieve_loop)\<rparr>)
      | Drain_test \<Rightarrow>
          if channel_empty (channel s)
          then s\<lparr>dpc := (if nconsumers s > 1 then Stop_workers 0 else Post_process)\<rparr>
          else s\<lparr>dpc := Drain_recieve\<rparr>
      | Drain_recieve \<Rightarrow>
          (case channel_recieve (channel s) (data s) of
             None \<Rightarrow> s
           | Some (ok, d, ch) \<Rightarrow> deliver True (s\<lparr>channel := ch, data := d\<rparr>))
      | Stop_workers i \<Rightarrow>
          s\<lparr>worker_channels := (worker_channels s)[i := channel_send_stop (worker_channels s ! i)],
            trace := trace s @ [Worker_send_stop i],
            dpc := (if i + 1 < nconsumers s then Stop_workers (i + 1) else Join_reader)\<rparr>
      | Post_process \<Rightarrow>
          (case data s of
             None \<Rightarrow> s\<lparr>status := Some Null_dereference\<rparr>
           | Some d \<Rightarrow>
               s\<lparr>trace := trace s @ [Post_process_handler 0 (Some (frame_info d))],
                 dpc := Join_reader\<rparr>)
      | Join_reader \<Rightarrow>
          if reader s = [] \<and> reader_fatal s = None
          then s\<lparr>dpc := (if nconsumers s > 1 then Join_workers else Returned)\<rparr>
          else s
      | Join_workers \<Rightarrow>
          if list_all (\<lambda>w. wpc w = W_done) (workers s) then s\<lparr>dpc := Returned\<rparr> else s
      | Returned \<Rightarrow> s)"

text \<open>
  Modelled from the spec: \<^verbatim>\<open>Consumer_base::run_in_thread\<close> is not among the sources. Each
  worker thread runs that consumer's \<open>pre_process\<close>, then loops \<open>receive\<close> and
  \<open>consume_frame\<close> on its own channel until closed, then \<open>post_process\<close> with the last
  metadata (none if no frame arrived).
\<close>

definition worker_step :: "nat \<Rightarrow> system \<Rightarrow> system" where
  "worker_step i s =
     (if i < length (workers s) then
        (let w = workers s ! i in
         case wpc w of
           W_pre_process \<Rightarrow>
             s\<lparr>workers := (workers s)[i := w\<lparr>wpc := W_recieve\<rparr>],
               trace := trace s @ [Pre_process_handler i]\<rparr>
         | W_recieve \<Rightarrow>
             (case channel_recieve (worker_channels s ! i) (wdata w) of
                None \<Rightarrow> s
              | Some (ok, d, ch) \<Rightarrow>
                  if ok
                  then s\<lparr>worker_channels := (worker_channels s)[i := ch],
                         workers := (workers s)[i := w\<lparr>wdata := d\<rparr>],
                         trace := trace s @ [Consume_frame i d]\<rparr>
                  else s\<lparr>workers := (workers s)[i := w\<lparr>wpc := W_done\<rparr>],
                         trace := trace s @ [Post_process_handler i (map_option frame_info (wdata w))]\<rparr>)
         | W_done \<Rightarrow> s)
      else s)"

definition step :: "thread \<Rightarrow> system \<Rightarrow> system" where
  "step th s =
     (if status s \<noteq> None then s
      else case th of
             Reader_thread \<Rightarrow> reader_step s
           | Dispatcher \<Rightarrow> dispatcher_step s
           | Worker i \<Rightarrow> worker_step i s)"

fun exec :: "thread list \<Rightarrow> system \<Rightarrow> system" where
  "exec [] s = s"
| "exec (th # ths) s = exec ths (step th s)"

text \<open>
  \<^verbatim>\<open>run\<close>: the set-up, then the threads under the schedule \<open>sched\<close>. \<open>fsys\<close> gives the
  trajectory files their contents.
\<close>

definition run ::
  "nat \<Rightarrow> int \<Rightarrow> (string \<Rightarrow> file_format) \<Rightarrow> (string \<Rightarrow> error option) \<Rightarrow> (string \<Rightarrow> traj_file)
    \<Rightarrow> Options_tree \<Rightarrow> Options_tree \<Rightarrow> thread list \<Rightarrow> run_event list \<times> (error + system)" where
  "run n li rf ld fsys options trj sched =
     (case run_setup n li rf ld options trj of
        (evs, Inl err) \<Rightarrow> (evs, Inl err)
      | (evs, Inr (p, buf_size)) \<Rightarrow>
          (evs, Inr (exec sched (init_system n buf_size (reader_thread_body p fsys)))))"

subsection \<open>Reading a trace\<close>

text \<open>The items the reader gets into the channel: those it sends before it sends stop.\<close>

fun sent_before_stop :: "reader_event list \<Rightarrow> Data_container list" where
  "sent_before_stop [] = []"
| "sent_before_stop (Send d # evs) = d # sent_before_stop evs"
| "sent_before_stop (Send_stop # evs) = []"
| "sent_before_stop (_ # evs) = sent_before_stop evs"

text \<open>Everything the reader sends, and the number of frames it has read.\<close>

fun sent :: "reader_event list \<Rightarrow> Data_container list" where
  "sent [] = []"
| "sent (Send d # evs) = d # sent evs"
| "sent (_ # evs) = sent evs"

fun reads :: "reader_event list \<Rightarrow> nat" where
  "reads [] = 0"
| "reads (Read (Some f) # evs) = Suc (reads evs)"
| "reads (_ # evs) = reads evs"

text \<open>The items consumer \<open>i\<close> was given by \<^verbatim>\<open>consume_frame\<close>, in order.\<close>

fun consumed :: "nat \<Rightarrow> event list \<Rightarrow> Data_ptr list" where
  "consumed i [] = []"
| "consumed i (Consume_frame j d # evs) = (if j = i then d # consumed i evs else consumed i evs)"
| "consumed i (_ # evs) = consumed i evs"

text \<open>What the dispatcher did on the channel of consumer \<open>i\<close>, in order.\<close>

datatype channel_op = Op_send Data_ptr | Op_send_stop

fun worker_ops :: "nat \<Rightarrow> event list \<Rightarrow> channel_op list" where
  "worker_ops i [] = []"
| "worker_ops i (Worker_send j d # evs) =
     (if j = i then Op_send d # worker_ops i evs else worker_ops i evs)"
| "worker_ops i (Worker_send_stop j # evs) =
     (if j = i then Op_send_stop # worker_ops i evs else worker_ops i evs)"
| "worker_ops i (_ # evs) = worker_ops i evs"

text \<open>The calls of its three handlers that consumer \<open>i\<close> was given, in order.\<close>

fun calls :: "nat \<Rightarrow> event list \<Rightarrow> event list" where
  "calls i [] = []"
| "calls i (Pre_process_handler j # evs) =
     (if j = i then Pre_process_handler j # calls i evs else calls i evs)"
| "calls i (Consume_frame j d # evs) =
     (if j = i then Consume_frame j d # calls i evs else calls i evs)"
| "calls i (Post_process_handler j x # evs) =
     (if j = i then Post_process_handler j x # calls i evs else calls i evs)"
| "calls i (_ # evs) = calls i evs"

subsection \<open>Auxiliary predicates on reader traces\<close>

text \<open>
  Three predicates used in the proofs only. \<open>numbered a v evs\<close>: walking along \<open>evs\<close>
  from the counters \<open>a\<close> (absolute index) and \<open>v\<close> (valid ordinal), every container
  sent carries the counters of that moment.
\<close>

fun numbered :: "int \<Rightarrow> int \<Rightarrow> reader_event list \<Rightarrow> bool" where
  "numbered a v [] = True"
| "numbered a v (Read (Some f) # evs) = numbered (a + 1) v evs"
| "numbered a v (Send d # evs) =
     (fi_absolute_frame (frame_info d) = a \<and> fi_valid_frame (frame_info d) = v + 1 \<and> numbered a (v + 1) evs)"
| "numbered a v (_ # evs) = numbered a v evs"

text \<open>
  \<open>ends_ok p n fin evs\<close>: \<open>n\<close> is the index of the next frame; if \<open>fin\<close>, some frame read
  in \<open>evs\<close> is past the end of the interval and what follows the first such frame is one
  stop; if not \<open>fin\<close>, no frame read in \<open>evs\<close> is past the end.
\<close>

fun ends_ok :: "Trajectory_processor \<Rightarrow> int \<Rightarrow> bool \<Rightarrow> reader_event list \<Rightarrow> bool" where
  "ends_ok p n fin [] = (\<not> fin)"
| "ends_ok p n fin (Read (Some f) # evs) =
     (if is_end_of_interval p n (frame_time p n f) then fin \<and> evs = [Send_stop]
      else ends_ok p (n + 1) fin evs)"
| "ends_ok p n fin (_ # evs) = ends_ok p n fin evs"

text \<open>\<open>accepted p d\<close>: what holds of every container the reader sends.\<close>

definition accepted :: "Trajectory_processor \<Rightarrow> Data_container \<Rightarrow> bool" where
  "accepted p d =
     (let n = fi_absolute_frame (frame_info d); tm = frame_t (frame d)
      in fi_absolute_time (frame_info d) = tm \<and>
         (if custom_dt p \<ge> 0
          then tm = float_add (custom_start_time p) (float_mul (custom_dt p) (float_of_int n))
          else True) \<and>
         \<not> is_end_of_interval p n tm \<and> is_frame_valid p n tm = Inr True)"

subsection \<open>Configuration errors\<close>

text \<open>
  The three configuration errors, in the words of the specification: no consumers
  registered, no trajectory files resolved, or an invalid range (both bounds set, that
  is not negative, and the last one smaller than the first, for frames or for times).
\<close>

definition trajectory_files :: "(string \<Rightarrow> file_format) \<Rightarrow> Options_tree \<Rightarrow> string list" where
  "trajectory_files rf trj =
     filter (\<lambda>s. rf s \<in> {TRR_FILE, XTC_FILE, DCD_FILE}) (unnamed_values trj)"

definition invalid_range :: "Options_tree \<Rightarrow> bool" where
  "invalid_range trj =
     (let ff = get_value (int_values trj) ''first_frame'' (-1);
          lf = get_value (int_values trj) ''last_frame'' (-1);
          ft = get_value (float_values trj) ''first_time'' (-1);
          lt = get_value (float_values trj) ''last_time'' (-1)
      in (ff \<ge> 0 \<and> lf \<ge> 0 \<and> lf < ff) \<or> (ft \<ge> 0 \<and> lt \<ge> 0 \<and> lt < ft))"

definition configuration_error :: "nat \<Rightarrow> (string \<Rightarrow> file_format) \<Rightarrow> Options_tree \<Rightarrow> bool" where
  "configuration_error n rf trj = (n = 0 \<or> trajectory_files rf trj = [] \<or> invalid_range trj)"

subsection \<open>Example inputs\<close>

text \<open>
  Two trajectory files of four and three frames, with the times 100 to 106 in the files,
  a third one whose first read fails, and a processor with every option unset.
\<close>

definition example_frame :: "real \<Rightarrow> Frame" where
  "example_frame x = \<lparr>coord = [(x, 0, 0)], frame_t = x\<rparr>"

definition example_processor :: Trajectory_processor where
  "example_processor = \<lparr>traj_files = [''a.xtc'', ''b.xtc''], window_size_frames = -1,
     window_size_time = -1, first_frame = -1, last_frame = -1, first_time = -1, last_time = -1,
     skip = -1, custom_start_time = -1, custom_dt = -1, log_interval = -1\<rparr>"

definition example_files :: "string \<Rightarrow> traj_file" where
  "example_files s =
     (if s = ''a.xtc'' then Opened [example_frame 100, example_frame 101, example_frame 102, example_frame 103] Eof
      else if s = ''b.xtc'' then Opened [example_frame 104, example_frame 105, example_frame 106] Eof
      else if s = ''c.xtc'' then Opened [] (Read_throws ''bad frame'')
      else Open_throws ''no such file'')"

text \<open>
  A recogniser of formats for the example file names, a root node with nothing set and a
  trajectory block that names the two trajectory files.
\<close>

definition example_formats :: "string \<Rightarrow> file_format" where
  "example_formats s =
     (if s = ''s.pdb'' then PDB_FILE
      else if s = ''a.xtc'' \<or> s = ''b.xtc'' \<or> s = ''c.xtc'' then XTC_FILE
      else OTHER_FILE)"

definition example_options :: Options_tree where
  "example_options = \<lparr>unnamed_values = [], string_values = Map.empty, int_values = Map.empty,
     float_values = Map.empty\<rparr>"

definition example_trajectory :: Options_tree where
  "example_trajectory = \<lparr>unnamed_values = [''a.xtc'', ''b.xtc''], string_values = Map.empty,
     int_values = Map.empty, float_values = Map.empty\<rparr>"

subsection \<open>Invariants of a run\<close>

text \<open>
  Used in the proofs only. The items the dispatcher has put on the channel of consumer
  \<open>i\<close>:
\<close>

fun forwarded :: "nat \<Rightarrow> event list \<Rightarrow> Data_ptr list" where
  "forwarded i [] = []"
| "forwarded i (Worker_send j d # evs) = (if j = i then d # forwarded i evs else forwarded i evs)"
| "forwarded i (_ # evs) = forwarded i evs"

text \<open>
  What the dispatcher has still to receive: the queue of the reader's channel, and what
  the reader will send before its stop unless the channel is closed already.
\<close>

definition source_rest :: "system \<Rightarrow> Data_ptr list" where
  "source_rest s =
     queue (channel s) @
     (if stop_requested (channel s) then [] else map Some (sent_before_stop (reader s)))"

text \<open>
  By the place of the dispatcher: the item in its hand that consumer \<open>i\<close> has still to
  get, whether the channel of consumer \<open>i\<close> has been closed, whether the first receive
  loop has been left, and the places the dispatcher can be at with several consumers.
\<close>

fun pending_for :: "nat \<Rightarrow> dispatcher_pc \<Rightarrow> Data_ptr \<Rightarrow> Data_ptr list" where
  "pending_for i (Fan_send k dr) d = (if k \<le> i then [d] else [])"
| "pending_for i _ d = []"

fun closed_for :: "nat \<Rightarrow> dispatcher_pc \<Rightarrow> bool" where
  "closed_for i (Stop_workers k) = (i < k)"
| "closed_for i Join_reader = True"
| "closed_for i Join_workers = True"
| "closed_for i Returned = True"
| "closed_for i _ = False"

fun past_loop :: "dispatcher_pc \<Rightarrow> bool" where
  "past_loop Pre_process = False"
| "past_loop Recieve_loop = False"
| "past_loop (Fan_send k dr) = False"
| "past_loop _ = True"

fun fan_pc_ok :: "nat \<Rightarrow> dispatcher_pc \<Rightarrow> bool" where
  "fan_pc_ok n (Fan_send k dr) = (k < n \<and> \<not> dr)"
| "fan_pc_ok n (Stop_workers k) = (k < n)"
| "fan_pc_ok n Pre_process = False"
| "fan_pc_ok n Post_process = False"
| "fan_pc_ok n Drain_recieve = False"
| "fan_pc_ok n _ = True"

text \<open>
  The last of the items a consumer was given (the pointer its thread holds), and the
  calls a consumer has been given when its worker is at a place and has consumed \<open>cs\<close>.
\<close>

definition last_ptr :: "Data_ptr list \<Rightarrow> Data_ptr" where
  "last_ptr xs = (if xs = [] then None else last xs)"

fun worker_calls :: "nat \<Rightarrow> worker_pc \<Rightarrow> Data_ptr list \<Rightarrow> event list" where
  "worker_calls i W_pre_process cs = []"
| "worker_calls i W_recieve cs = Pre_process_handler i # map (Consume_frame i) cs"
| "worker_calls i W_done cs =
     Pre_process_handler i # map (Consume_frame i) cs @
     [Post_process_handler i (map_option frame_info (last_ptr cs))]"

text \<open>
  The invariant for consumer \<open>i\<close> of a run with several consumers; \<open>S\<close> is the sequence
  of items of the reader.
\<close>

definition fan_inv :: "Data_ptr list \<Rightarrow> nat \<Rightarrow> system \<Rightarrow> bool" where
  "fan_inv S i s =
     (1 < nconsumers s \<and> i < nconsumers s \<and>
      length (worker_channels s) = nconsumers s \<and> length (workers s) = nconsumers s \<and>
      fan_pc_ok (nconsumers s) (dpc s) \<and>
      forwarded i (trace s) @ pending_for i (dpc s) (data s) @ source_rest s = S \<and>
      (if past_loop (dpc s) then queue (channel s) = [] \<and> stop_requested (channel s) else True) \<and>
      stop_requested (worker_channels s ! i) = closed_for i (dpc s) \<and>
      worker_ops i (trace s) =
        map Op_send (forwarded i (trace s)) @ (if closed_for i (dpc s) then [Op_send_stop] else []) \<and>
      consumed i (trace s) @ queue (worker_channels s ! i) = forwarded i (trace s) \<and>
      (if wpc (workers s ! i) = W_done
       then queue (worker_channels s ! i) = [] \<and> closed_for i (dpc s) else True) \<and>
      (if dpc s = Returned then wpc (workers s ! i) = W_done else True) \<and>
      (if wpc (workers s ! i) = W_pre_process then consumed i (trace s) = [] else True) \<and>
      last_ptr (consumed i (trace s)) = wdata (workers s ! i) \<and>
      calls i (trace s) = worker_calls i (wpc (workers s ! i)) (consumed i (trace s)))"

text \<open>The same for the run with one consumer, whose pointer \<open>data\<close> is the last item consumed.\<close>

fun single_pc_ok :: "dispatcher_pc \<Rightarrow> bool" where
  "single_pc_ok (Fan_send k dr) = False"
| "single_pc_ok (Stop_workers k) = False"
| "single_pc_ok Drain_recieve = False"
| "single_pc_ok Join_workers = False"
| "single_pc_ok _ = True"

fun single_calls :: "dispatcher_pc \<Rightarrow> Data_ptr list \<Rightarrow> event list" where
  "single_calls Pre_process cs = []"
| "single_calls Join_reader cs =
     Pre_process_handler 0 # map (Consume_frame 0) cs @
     [Post_process_handler 0 (map_option frame_info (last_ptr cs))]"
| "single_calls Returned cs =
     Pre_process_handler 0 # map (Consume_frame 0) cs @
     [Post_process_handler 0 (map_option frame_info (last_ptr cs))]"
| "single_calls _ cs = Pre_process_handler 0 # map (Consume_frame 0) cs"

fun past_post :: "dispatcher_pc \<Rightarrow> bool" where
  "past_post Join_reader = True"
| "past_post Returned = True"
| "past_post _ = False"

definition single_inv :: "Data_ptr list \<Rightarrow> system \<Rightarrow> bool" where
  "single_inv S s =
     (nconsumers s \<le> 1 \<and> workers s = [] \<and> single_pc_ok (dpc s) \<and>
      consumed 0 (trace s) @ source_rest s = S \<and>
      (if past_loop (dpc s) then queue (channel s) = [] \<and> stop_requested (channel s) else True) \<and>
      last_ptr (consumed 0 (trace s)) = data s \<and>
      (if past_post (dpc s)
       then \<exists>d tr. data s = Some d \<and> trace s = tr @ [Post_process_handler 0 (Some (frame_info d))]
       else True) \<and>
      (if dpc s = Pre_process then trace s = [] else True) \<and>
      calls 0 (trace s) = single_calls (dpc s) (consumed 0 (trace s)))"

text \<open>
  For termination: a bound on the steps still to take, which every step that changes the
  state lowers. An event of the reader weighs more than an item in its channel, which
  weighs more than the sends it takes to pass the item on to every consumer.
\<close>

fun dispatch_rank :: "nat \<Rightarrow> dispatcher_pc \<Rightarrow> nat" where
  "dispatch_rank n Returned = 0"
| "dispatch_rank n Join_workers = 1"
| "dispatch_rank n Join_reader = 2"
| "dispatch_rank n (Stop_workers k) = 3 + (n - k)"
| "dispatch_rank n Drain_test = 4 + n"
| "dispatch_rank n Recieve_loop = 5 + n"
| "dispatch_rank n (Fan_send k dr) = 5 + n + 2 * (n - k)"
| "dispatch_rank n Pre_process = 6 + n"
| "dispatch_rank n Post_process = 3"
| "dispatch_rank n Drain_recieve = 0"

fun worker_rank :: "worker_pc \<Rightarrow> nat" where
  "worker_rank W_pre_process = 2"
| "worker_rank W_recieve = 1"
| "worker_rank W_done = 0"

definition work_left :: "system \<Rightarrow> nat" where
  "work_left s =
     (2 * nconsumers s + 2) * length (reader s) +
     (2 * nconsumers s + 1) * length (queue (channel s)) +
     dispatch_rank (nconsumers s) (dpc s) +
     sum_list (map (\<lambda>c. length (queue c)) (worker_channels s)) +
     sum_list (map (\<lambda>w. worker_rank (wpc w)) (workers s))"

text \<open>
  What a run needs to go on: it has not been aborted, the reader has no fatal error ahead
  and will send stop, and every buffer has room for one item at least.
\<close>

definition live :: "system \<Rightarrow> bool" where
  "live s =
     (status s = None \<and> reader_fatal s = None \<and> 0 < buffer_size (channel s) \<and>
      length (worker_channels s) = length (workers s) \<and>
      list_all (\<lambda>c. 0 < buffer_size c) (worker_channels s) \<and>
      (stop_requested (channel s) \<or> Send_stop \<in> set (reader s)))"

text \<open>
  A synthetic source of \<open>k\<close> containers and the schedule that lets the reader, the
  dispatcher and the \<open>n\<close> workers step in turn, \<open>k\<close> times.
\<close>

definition example_container :: "int \<Rightarrow> Data_container" where
  "example_container k =
     fill_container example_processor
       \<lparr>abs_frame = k, valid_frame = k, saved_first_frame = 0, saved_first_time = 104, finished = False\<rparr>
       (example_frame (104 + real_of_int k)) (104 + real_of_int k)"

definition example_source :: "nat \<Rightarrow> reader_event list \<times> error option" where
  "example_source k = (map (\<lambda>i. Send (example_container (int i))) [0..<k] @ [Send_stop], None)"

definition round_robin :: "nat \<Rightarrow> nat \<Rightarrow> thread list" where
  "round_robin n k = concat (replicate k (Reader_thread # Dispatcher # map Worker [0..<n]))"

section \<open>Properties\<close>

subsection \<open>Single-precision arithmetic\<close>

lemma exp_up_eq: "2 ^ n \<le> y \<Longrightarrow> y < 2 ^ Suc n \<Longrightarrow> n \<le> k \<Longrightarrow> exp_up k y = int n"
proof (induction k arbitrary: y n)
  case 0
  then show ?case by simp
next
  case (Suc k)
  show ?case
  proof (cases n)
    case 0
    with Suc.prems show ?thesis by simp
  next
    case (Suc m)
    have "(1::real) \<le> 2 ^ m" by simp
    moreover from Suc Suc.prems(1) have "2 * 2 ^ m \<le> y" by simp
    ultimately have "2 \<le> y" by linarith
    moreover from Suc Suc.prems have "exp_up k (y / 2) = int m"
      by (intro Suc.IH) auto
    ultimately show ?thesis using Suc \<open>2 \<le> y\<close> by simp
  qed
qed

lemma exp_down_eq:
  "y < 1 \<Longrightarrow> 1 \<le> 2 ^ n * y \<Longrightarrow> 2 ^ n * y < 2 \<Longrightarrow> n \<le> k \<Longrightarrow> exp_down k y = - int n"
proof (induction k arbitrary: y n)
  case 0
  then show ?case by simp
next
  case (Suc k)
  from Suc.prems obtain m where n: "n = Suc m" by (cases n) auto
  show ?case
  proof (cases m)
    case 0
    with n Suc.prems have "\<not> 2 * y < 1" by simp
    then have "exp_down k (2 * y) = 0" by (cases k) simp_all
    with Suc.prems n 0 show ?thesis by simp
  next
    case (Suc j)
    from Suc.prems(2) have y: "0 < y"
      by (smt (verit) mult_nonneg_nonpos zero_le_power)
    have "(1::real) \<le> 2 ^ j" by simp
    with y have "y \<le> 2 ^ j * y" by simp
    moreover from n Suc Suc.prems(3) have "2 * (2 ^ j * y) < 1" by (simp add: mult.commute)
    ultimately have "2 * y < 1" by linarith
    moreover from n Suc.prems this have "exp_down k (2 * y) = - int m"
      by (intro Suc.IH) (auto simp: mult.assoc)
    ultimately show ?thesis using Suc.prems n by simp
  qed
qed

lemma float_round_up:
  "2 ^ n \<le> \<bar>x\<bar> \<Longrightarrow> \<bar>x\<bar> < 2 ^ Suc n \<Longrightarrow> n \<le> 127 \<Longrightarrow>
   float_round x = 2 powi (int n - 23) * of_int (round_half_even (x / 2 powi (int n - 23)))"
proof -
  assume a: "2 ^ n \<le> \<bar>x\<bar>" "\<bar>x\<bar> < 2 ^ Suc n" "n \<le> 127"
  from a(1) have "1 \<le> \<bar>x\<bar>" using one_le_power [of "2::real" n] by linarith
  with exp_up_eq [OF a] show ?thesis by (simp add: float_round_def float_exponent_def Let_def)
qed

lemma float_round_down:
  "\<bar>x\<bar> < 1 \<Longrightarrow> 1 \<le> 2 ^ n * \<bar>x\<bar> \<Longrightarrow> 2 ^ n * \<bar>x\<bar> < 2 \<Longrightarrow> n \<le> 126 \<Longrightarrow>
   float_round x = 2 powi (- int n - 23) * of_int (round_half_even (x / 2 powi (- int n - 23)))"
proof -
  assume a: "\<bar>x\<bar> < 1" "1 \<le> 2 ^ n * \<bar>x\<bar>" "2 ^ n * \<bar>x\<bar> < 2" "n \<le> 126"
  from exp_down_eq [OF a] a(1) show ?thesis by (simp add: float_round_def float_exponent_def Let_def)
qed

lemma float_round_0 [simp]: "float_round 0 = 0"
  by (simp add: float_round_def round_half_even_def)

text \<open>The values the examples need.\<close>

lemma float_of_int_0: "float_of_int 0 = 0"
  by (simp add: float_of_int_def)

lemma float_of_int_1: "float_of_int 1 = 1"
  using float_round_up [of 0 "1"]
  by (simp add: float_of_int_def round_half_even_def power_int_minus)

lemma float_of_int_2: "float_of_int 2 = 2"
  using float_round_up [of 1 "2"]
  by (simp add: float_of_int_def round_half_even_def power_int_minus)

lemma float_of_int_3: "float_of_int 3 = 3"
  using float_round_up [of 1 "3"]
  by (simp add: float_of_int_def round_half_even_def power_int_minus)

lemma float_of_int_4: "float_of_int 4 = 4"
  using float_round_up [of 2 "4"]
  by (simp add: float_of_int_def round_half_even_def power_int_minus)

lemma float_of_int_5: "float_of_int 5 = 5"
  using float_round_up [of 2 "5"]
  by (simp add: float_of_int_def round_half_even_def power_int_minus)

lemma float_of_int_6: "float_of_int 6 = 6"
  using float_round_up [of 2 "6"]
  by (simp add: float_of_int_def round_half_even_def power_int_minus)

lemma float_mul_tenth_0: "float_mul (13421773 / 134217728) 0 = 0"
  by (simp add: float_mul_def)

lemma float_mul_tenth_1: "float_mul (13421773 / 134217728) 1 = 13421773 / 134217728"
  using float_round_down [of "13421773 / 134217728" 4]
  by (simp add: float_mul_def round_half_even_def power_int_minus)

lemma float_mul_tenth_2: "float_mul (13421773 / 134217728) 2 = 13421773 / 67108864"
  using float_round_down [of "13421773 / 67108864" 3]
  by (simp add: float_mul_def round_half_even_def power_int_minus)

lemma float_mul_tenth_3: "float_mul (13421773 / 134217728) 3 = 5033165 / 16777216"
  using float_round_down [of "40265319 / 134217728" 2]
  by (simp add: float_mul_def round_half_even_def power_int_minus)

lemma float_mul_tenth_4: "float_mul (13421773 / 134217728) 4 = 13421773 / 33554432"
  using float_round_down [of "13421773 / 33554432" 2]
  by (simp add: float_mul_def round_half_even_def power_int_minus)

lemma float_mul_tenth_5: "float_mul (13421773 / 134217728) 5 = 1 / 2"
  using float_round_down [of "67108865 / 134217728" 1]
  by (simp add: float_mul_def round_half_even_def power_int_minus)

lemma float_mul_tenth_6: "float_mul (13421773 / 134217728) 6 = 5033165 / 8388608"
  using float_round_down [of "40265319 / 67108864" 1]
  by (simp add: float_mul_def round_half_even_def power_int_minus)

lemma float_add_tenth_0: "float_add 0 0 = 0"
  by (simp add: float_add_def)

lemma float_add_tenth_1: "float_add 0 (13421773 / 134217728) = 13421773 / 134217728"
  using float_round_down [of "13421773 / 134217728" 4]
  by (simp add: float_add_def round_half_even_def power_int_minus)

lemma float_add_tenth_2: "float_add 0 (13421773 / 67108864) = 13421773 / 67108864"
  using float_round_down [of "13421773 / 67108864" 3]
  by (simp add: float_add_def round_half_even_def power_int_minus)

lemma float_add_tenth_3: "float_add 0 (5033165 / 16777216) = 5033165 / 16777216"
  using float_round_down [of "5033165 / 16777216" 2]
  by (simp add: float_add_def round_half_even_def power_int_minus)

lemma float_add_tenth_4: "float_add 0 (13421773 / 33554432) = 13421773 / 33554432"
  using float_round_down [of "13421773 / 33554432" 2]
  by (simp add: float_add_def round_half_even_def power_int_minus)

lemma float_add_tenth_5: "float_add 0 (1 / 2) = 1 / 2"
  using float_round_down [of "1 / 2" 1]
  by (simp add: float_add_def round_half_even_def power_int_minus)

lemma float_add_tenth_6: "float_add 0 (5033165 / 8388608) = 5033165 / 8388608"
  using float_round_down [of "5033165 / 8388608" 1]
  by (simp add: float_add_def round_half_even_def power_int_minus)

lemma float_mul_2_5: "float_mul 2 5 = 10"
  using float_round_up [of 3 "10"]
  by (simp add: float_mul_def round_half_even_def power_int_minus)

lemma float_add_10_10: "float_add 10 10 = 20"
  using float_round_up [of 4 "20"]
  by (simp add: float_add_def round_half_even_def power_int_minus)

lemma float_mul_2_0: "float_mul 2 0 = 0"
  by (simp add: float_mul_def)

lemma float_add_10_0: "float_add 10 0 = 10"
  using float_round_up [of 3 "10"]
  by (simp add: float_add_def round_half_even_def power_int_minus)

lemmas float_examples =
  float_mul_2_0 float_add_10_0
  float_of_int_0 float_of_int_1 float_of_int_2 float_of_int_3 float_of_int_4 float_of_int_5
  float_of_int_6 float_mul_tenth_0 float_mul_tenth_1 float_mul_tenth_2 float_mul_tenth_3
  float_mul_tenth_4 float_mul_tenth_5 float_mul_tenth_6 float_add_tenth_0 float_add_tenth_1
  float_add_tenth_2 float_add_tenth_3 float_add_tenth_4 float_add_tenth_5 float_add_tenth_6
  float_mul_2_5 float_add_10_10

subsection \<open>The frame filter\<close>

lemma smod_zero_iff: "((a::int) smod b = 0) = (b dvd a)"
  by (auto simp: signed_modulo_int_def sgn_if dvd_eq_mod_eq_0[symmetric] split: if_splits)

text \<open>
  With a stride other than zero the filter returns, and returns the conjunction of the
  three tests; a negative stride switches the third one off.
\<close>

lemma is_frame_valid_general:
  "skip p \<noteq> 0 \<Longrightarrow>
   is_frame_valid p fr tm =
     Inr ((first_frame p < 0 \<or> fr \<ge> first_frame p) \<and> (first_time p < 0 \<or> tm \<ge> first_time p)
          \<and> (skip p < 1 \<or> fr mod skip p = 0))"
  by (auto simp: is_frame_valid_def smod_zero_iff dvd_eq_mod_eq_0)

text \<open>
  C2: \<^verbatim>\<open>is_frame_valid\<close> is to return true iff the frame and time are not before the
  first ones and (\<open>skip < 1\<close> or the frame index is a multiple of \<open>skip\<close>), and never
  to take a remainder by a stride that is not positive. The guard of the source is
  \<^verbatim>\<open>skip<0\<close>: with \<open>skip = 0\<close> and the first two tests passed, every frame index
  and every time reach the remainder by zero, and no answer is returned.
\<close>

theorem is_frame_valid_skip_zero:
  "is_frame_valid (p\<lparr>first_frame := -1, first_time := -1, skip := 0\<rparr>) fr tm = Inl Division_by_zero"
  by (simp add: is_frame_valid_def)

subsection \<open>The reader: one file\<close>

lemma sent_append [simp]: "sent (xs @ ys) = sent xs @ sent ys"
  by (induction xs rule: sent.induct) auto

lemma reads_append [simp]: "reads (xs @ ys) = reads xs + reads ys"
  by (induction xs rule: reads.induct) auto

lemma set_sent: "d \<in> set (sent evs) \<longleftrightarrow> Send d \<in> set evs"
  by (induction evs rule: sent.induct) auto

lemma frame_time_override:
  "custom_dt p \<ge> 0 \<Longrightarrow>
   frame_time p n f = float_add (custom_start_time p) (float_mul (custom_dt p) (float_of_int n))"
  by (simp add: frame_time_def)

lemma accepted_fill:
  "\<not> is_end_of_interval p n (frame_time p n f) \<Longrightarrow>
   is_frame_valid p n (frame_time p n f) = Inr True \<Longrightarrow>
   abs_frame st2 = n \<Longrightarrow>
   accepted p (fill_container p st2 f (frame_time p n f))"
  by (simp add: accepted_def fill_container_def frame_time_def)

lemma abs_frame_accept [simp]: "abs_frame (accept st tm) = abs_frame st"
  by (simp add: accept_def Let_def)

lemma valid_frame_accept [simp]: "valid_frame (accept st tm) = valid_frame st + 1"
  by (simp add: accept_def Let_def)

lemma finished_accept [simp]: "finished (accept st tm) = finished st"
  by (simp add: accept_def Let_def)

lemma read_frames_accepted:
  "read_frames p st fs e = (evs, st', ex) \<Longrightarrow> Send d \<in> set evs \<Longrightarrow> accepted p d"
proof (induction fs arbitrary: st evs st' ex)
  case Nil
  then show ?case by (cases e) auto
next
  case (Cons f fs)
  then show ?case
    by (auto simp: Let_def accepted_fill split: if_splits sum.splits bool.splits prod.splits)
qed

lemma read_frames_counters:
  "read_frames p st fs e = (evs, st', ex) \<Longrightarrow>
   abs_frame st' = abs_frame st + int (reads evs) \<and>
   valid_frame st' = valid_frame st + int (length (sent evs))"
proof (induction fs arbitrary: st evs st' ex)
  case Nil
  then show ?case by (cases e) auto
next
  case (Cons f fs)
  then show ?case
    by (fastforce simp: Let_def split: if_splits sum.splits bool.splits prod.splits)
qed

lemma read_frames_numbered:
  "read_frames p st fs e = (evs, st', ex) \<Longrightarrow> numbered (abs_frame st) (valid_frame st) evs"
proof (induction fs arbitrary: st evs st' ex)
  case Nil
  then show ?case by (cases e) auto
next
  case (Cons f fs)
  then show ?case
    by (fastforce simp: Let_def fill_container_def split: if_splits sum.splits bool.splits prod.splits)
qed

lemma read_frames_ends:
  "read_frames p st fs e = (evs, st', ex) \<Longrightarrow> \<not> finished st \<Longrightarrow>
   (finished st' \<longrightarrow> ex = Normal) \<and> ends_ok p (abs_frame st + 1) (finished st') evs"
proof (induction fs arbitrary: st evs st' ex)
  case Nil
  then show ?case by (cases e) auto
next
  case (Cons f fs)
  then show ?case
    by (fastforce simp: Let_def split: if_splits sum.splits bool.splits prod.splits)
qed

lemma read_frames_above:
  "read_frames p st fs e = (evs, st', ex) \<Longrightarrow> d \<in> set (sent evs) \<Longrightarrow>
   abs_frame st < fi_absolute_frame (frame_info d)"
proof (induction fs arbitrary: st evs st' ex)
  case Nil
  then show ?case by (cases e) auto
next
  case (Cons f fs)
  show ?case
  proof (cases "is_end_of_interval p (abs_frame st + 1) (frame_time p (abs_frame st + 1) f)")
    case True
    with Cons.prems show ?thesis by (auto simp: Let_def)
  next
    case False
    show ?thesis
    proof (cases "is_frame_valid p (abs_frame st + 1) (frame_time p (abs_frame st + 1) f)")
      case (Inl err)
      with False Cons.prems show ?thesis by (auto simp: Let_def)
    next
      case (Inr ok)
      show ?thesis
      proof (cases ok)
        case True
        let ?st2 = "accept (st\<lparr>abs_frame := abs_frame st + 1\<rparr>) (frame_time p (abs_frame st + 1) f)"
        obtain evs2 st2 ex2 where rf: "read_frames p ?st2 fs e = (evs2, st2, ex2)"
          by (cases "read_frames p ?st2 fs e") auto
        with True Inr False Cons.prems
        have "d = fill_container p ?st2 f (frame_time p (abs_frame st + 1) f) \<or> d \<in> set (sent evs2)"
          by (auto simp: Let_def)
        then show ?thesis
        proof
          assume "d = fill_container p ?st2 f (frame_time p (abs_frame st + 1) f)"
          then show ?thesis by (simp add: fill_container_def)
        next
          assume "d \<in> set (sent evs2)"
          from Cons.IH [OF rf this] show ?thesis by simp
        qed
      next
        case F: False
        let ?st1 = "st\<lparr>abs_frame := abs_frame st + 1\<rparr>"
        obtain evs2 st2 ex2 where rf: "read_frames p ?st1 fs e = (evs2, st2, ex2)"
          by (cases "read_frames p ?st1 fs e") auto
        with F Inr False Cons.prems have "d \<in> set (sent evs2)"
          by (auto simp: Let_def)
        from Cons.IH [OF rf this] show ?thesis by simp
      qed
    qed
  qed
qed

lemma read_frames_sorted:
  "read_frames p st fs e = (evs, st', ex) \<Longrightarrow>
   sorted_wrt (<) (map (\<lambda>x. fi_absolute_frame (frame_info x)) (sent evs))"
proof (induction fs arbitrary: st evs st' ex)
  case Nil
  then show ?case by (cases e) auto
next
  case (Cons f fs)
  show ?case
  proof (cases "is_end_of_interval p (abs_frame st + 1) (frame_time p (abs_frame st + 1) f)")
    case True
    with Cons.prems show ?thesis by (auto simp: Let_def)
  next
    case False
    show ?thesis
    proof (cases "is_frame_valid p (abs_frame st + 1) (frame_time p (abs_frame st + 1) f)")
      case (Inl err)
      with False Cons.prems show ?thesis by (auto simp: Let_def)
    next
      case (Inr ok)
      show ?thesis
      proof (cases ok)
        case True
        let ?st2 = "accept (st\<lparr>abs_frame := abs_frame st + 1\<rparr>) (frame_time p (abs_frame st + 1) f)"
        obtain evs2 st2 ex2 where rf: "read_frames p ?st2 fs e = (evs2, st2, ex2)"
          by (cases "read_frames p ?st2 fs e") auto
        with True Inr False Cons.prems
        have evs: "sent evs = fill_container p ?st2 f (frame_time p (abs_frame st + 1) f) # sent evs2"
          by (auto simp: Let_def)
        have "\<forall>d \<in> set (sent evs2). abs_frame st + 1 < fi_absolute_frame (frame_info d)"
          using read_frames_above [OF rf] by auto
        with Cons.IH [OF rf] evs show ?thesis
          by (simp add: fill_container_def)
      next
        case F: False
        let ?st1 = "st\<lparr>abs_frame := abs_frame st + 1\<rparr>"
        obtain evs2 st2 ex2 where rf: "read_frames p ?st1 fs e = (evs2, st2, ex2)"
          by (cases "read_frames p ?st1 fs e") auto
        with F Inr False Cons.prems have "sent evs = sent evs2"
          by (auto simp: Let_def)
        with Cons.IH [OF rf] show ?thesis by simp
      qed
    qed
  qed
qed

subsection \<open>The reader: the list of files\<close>

lemma numbered_append:
  "numbered a v xs \<Longrightarrow> numbered (a + int (reads xs)) (v + int (length (sent xs))) ys \<Longrightarrow>
   numbered a v (xs @ ys)"
  by (induction a v xs rule: numbered.induct) (auto simp: algebra_simps)


lemma ends_ok_append:
  "ends_ok p n False xs \<Longrightarrow> ends_ok p (n + int (reads xs)) fin ys \<Longrightarrow> ends_ok p n fin (xs @ ys)"
  by (induction p n "False" xs rule: ends_ok.induct) (auto simp: algebra_simps split: if_splits)


lemma read_files_accepted:
  "read_files p fsys st files = (evs, st', ex) \<Longrightarrow> Send d \<in> set evs \<Longrightarrow> accepted p d"
proof (induction files arbitrary: st evs st' ex)
  case Nil
  then show ?case by simp
next
  case (Cons fname rest)
  then show ?case
    by (auto split: traj_file.splits prod.splits loop_exit.splits if_splits
        dest: read_frames_accepted)
qed


lemma read_files_counters:
  "read_files p fsys st files = (evs, st', ex) \<Longrightarrow>
   abs_frame st' = abs_frame st + int (reads evs) \<and>
   valid_frame st' = valid_frame st + int (length (sent evs))"
proof (induction files arbitrary: st evs st' ex)
  case Nil
  then show ?case by simp
next
  case (Cons fname rest)
  then show ?case
    by (fastforce split: traj_file.splits prod.splits loop_exit.splits if_splits
        dest: read_frames_counters)
qed


lemma read_files_numbered:
  "read_files p fsys st files = (evs, st', ex) \<Longrightarrow> numbered (abs_frame st) (valid_frame st) evs"
proof (induction files arbitrary: st evs st' ex)
  case Nil
  then show ?case by simp
next
  case (Cons fname rest)
  show ?case
  proof (cases "fsys fname")
    case (Open_throws m)
    with Cons.prems show ?thesis by auto
  next
    case (Opened fs e)
    obtain evs1 st1 ex1 where rf: "read_frames p st fs e = (evs1, st1, ex1)"
      by (cases "read_frames p st fs e") auto
    note n1 = read_frames_numbered [OF rf] and c1 = read_frames_counters [OF rf]
    show ?thesis
    proof (cases "ex1 = Normal \<and> \<not> finished st1")
      case True
      obtain evs2 st2 ex2 where rfs: "read_files p fsys st1 rest = (evs2, st2, ex2)"
        by (cases "read_files p fsys st1 rest") auto
      from Cons.IH [OF rfs] c1 have "numbered (abs_frame st + int (reads evs1))
          (valid_frame st + int (length (sent evs1))) evs2" by simp
      with n1 have "numbered (abs_frame st) (valid_frame st) (evs1 @ evs2)"
        by (rule numbered_append)
      with Cons.prems Opened rf rfs True show ?thesis by auto
    next
      case False
      with Cons.prems Opened rf n1 show ?thesis
        by (auto split: loop_exit.splits if_splits)
    qed
  qed
qed


lemma read_files_ends:
  "read_files p fsys st files = (evs, st', ex) \<Longrightarrow> \<not> finished st \<Longrightarrow>
   (finished st' \<longrightarrow> ex = Normal) \<and> ends_ok p (abs_frame st + 1) (finished st') evs"
proof (induction files arbitrary: st evs st' ex)
  case Nil
  then show ?case by simp
next
  case (Cons fname rest)
  show ?case
  proof (cases "fsys fname")
    case (Open_throws m)
    with Cons.prems show ?thesis by auto
  next
    case (Opened fs e)
    obtain evs1 st1 ex1 where rf: "read_frames p st fs e = (evs1, st1, ex1)"
      by (cases "read_frames p st fs e") auto
    note e1 = read_frames_ends [OF rf Cons.prems(2)] and c1 = read_frames_counters [OF rf]
    show ?thesis
    proof (cases "ex1 = Normal \<and> \<not> finished st1")
      case True
      obtain evs2 st2 ex2 where rfs: "read_files p fsys st1 rest = (evs2, st2, ex2)"
        by (cases "read_files p fsys st1 rest") auto
      from True have nf: "\<not> finished st1" by simp
      from Cons.IH [OF rfs nf] c1
      have fin: "finished st2 \<longrightarrow> ex2 = Normal"
        and "ends_ok p (abs_frame st + 1 + int (reads evs1)) (finished st2) evs2"
        by (simp_all add: algebra_simps)
      with e1 nf have "ends_ok p (abs_frame st + 1) (finished st2) (evs1 @ evs2)"
        by (auto intro: ends_ok_append)
      with Cons.prems Opened rf rfs True fin show ?thesis by auto
    next
      case False
      with Cons.prems Opened rf e1 show ?thesis
        by (auto split: loop_exit.splits if_splits)
    qed
  qed
qed

lemma read_files_above:
  "read_files p fsys st files = (evs, st', ex) \<Longrightarrow> d \<in> set (sent evs) \<Longrightarrow>
   abs_frame st < fi_absolute_frame (frame_info d)"
proof (induction files arbitrary: st evs st' ex)
  case Nil
  then show ?case by simp
next
  case (Cons fname rest)
  show ?case
  proof (cases "fsys fname")
    case (Open_throws m)
    with Cons.prems show ?thesis by auto
  next
    case (Opened fs e)
    obtain evs1 st1 ex1 where rf: "read_frames p st fs e = (evs1, st1, ex1)"
      by (cases "read_frames p st fs e") auto
    note a1 = read_frames_above [OF rf] and c1 = read_frames_counters [OF rf]
    show ?thesis
    proof (cases "ex1 = Normal \<and> \<not> finished st1")
      case True
      obtain evs2 st2 ex2 where rfs: "read_files p fsys st1 rest = (evs2, st2, ex2)"
        by (cases "read_files p fsys st1 rest") auto
      with Cons.prems Opened rf True have "d \<in> set (sent evs1) \<or> d \<in> set (sent evs2)"
        by auto
      then show ?thesis
      proof
        assume "d \<in> set (sent evs1)"
        then show ?thesis by (rule a1)
      next
        assume "d \<in> set (sent evs2)"
        from Cons.IH [OF rfs this] c1 show ?thesis by simp
      qed
    next
      case False
      with Cons.prems Opened rf have "d \<in> set (sent evs1)"
        by (auto split: loop_exit.splits if_splits)
      then show ?thesis by (rule a1)
    qed
  qed
qed

lemma read_frames_below:
  "read_frames p st fs e = (evs, st', ex) \<Longrightarrow> d \<in> set (sent evs) \<Longrightarrow>
   fi_absolute_frame (frame_info d) \<le> abs_frame st'"
proof -
  assume rf: "read_frames p st fs e = (evs, st', ex)" and d: "d \<in> set (sent evs)"
  from d obtain a b where ab: "sent evs = a @ d # b" by (auto simp: in_set_conv_decomp)
  have "numbered (abs_frame st) (valid_frame st) evs" by (rule read_frames_numbered [OF rf])
  have "\<And>a0 v0. numbered a0 v0 evs \<Longrightarrow> d \<in> set (sent evs) \<Longrightarrow>
      fi_absolute_frame (frame_info d) \<le> a0 + int (reads evs)"
  proof -
    fix a0 v0 show "numbered a0 v0 evs \<Longrightarrow> d \<in> set (sent evs) \<Longrightarrow>
      fi_absolute_frame (frame_info d) \<le> a0 + int (reads evs)"
      by (induction a0 v0 evs rule: numbered.induct) (auto simp: algebra_simps)
  qed
  from this [OF read_frames_numbered [OF rf] d] read_frames_counters [OF rf]
  show ?thesis by simp
qed

lemma read_files_sorted:
  "read_files p fsys st files = (evs, st', ex) \<Longrightarrow>
   sorted_wrt (<) (map (\<lambda>x. fi_absolute_frame (frame_info x)) (sent evs))"
proof (induction files arbitrary: st evs st' ex)
  case Nil
  then show ?case by simp
next
  case (Cons fname rest)
  show ?case
  proof (cases "fsys fname")
    case (Open_throws m)
    with Cons.prems show ?thesis by auto
  next
    case (Opened fs e)
    obtain evs1 st1 ex1 where rf: "read_frames p st fs e = (evs1, st1, ex1)"
      by (cases "read_frames p st fs e") auto
    note s1 = read_frames_sorted [OF rf] and b1 = read_frames_below [OF rf]
    show ?thesis
    proof (cases "ex1 = Normal \<and> \<not> finished st1")
      case True
      obtain evs2 st2 ex2 where rfs: "read_files p fsys st1 rest = (evs2, st2, ex2)"
        by (cases "read_files p fsys st1 rest") auto
      have "\<forall>x \<in> set (sent evs1). \<forall>y \<in> set (sent evs2).
          fi_absolute_frame (frame_info x) < fi_absolute_frame (frame_info y)"
        using b1 read_files_above [OF rfs] by fastforce
      with Cons.IH [OF rfs] s1
      have "sorted_wrt (<) (map (\<lambda>x. fi_absolute_frame (frame_info x)) (sent (evs1 @ evs2)))"
        by (simp add: sorted_wrt_append)
      with Cons.prems Opened rf rfs True show ?thesis by auto
    next
      case False
      with Cons.prems Opened rf s1 show ?thesis
        by (auto split: loop_exit.splits if_splits)
    qed
  qed
qed

lemma numbered_decomp:
  "numbered a v (xs @ Send d # ys) \<Longrightarrow>
   fi_absolute_frame (frame_info d) = a + int (reads xs) \<and>
   fi_valid_frame (frame_info d) = v + 1 + int (length (sent xs))"
  by (induction a v xs rule: numbered.induct) (auto simp: algebra_simps)

lemma numbered_snoc: "numbered a v xs \<Longrightarrow> numbered a v (xs @ [Send_stop, Cout_error m]) \<and> numbered a v (xs @ [Send_stop])"
  by (induction a v xs rule: numbered.induct) auto

lemma ends_ok_decomp:
  "ends_ok p n fin (xs @ Read (Some f) # ys) \<Longrightarrow>
   is_end_of_interval p (n + int (reads xs)) (frame_time p (n + int (reads xs)) f) \<Longrightarrow>
   fin \<and> ys = [Send_stop]"
  by (induction p n fin xs rule: ends_ok.induct)
     (auto simp: algebra_simps append_eq_Cons_conv split: if_splits)

lemma append_decomp_left:
  "xs @ ys = a @ x # b \<Longrightarrow> x \<notin> set ys \<Longrightarrow> \<exists>b'. xs = a @ x # b' \<and> b = b' @ ys"
  by (auto simp: append_eq_append_conv2 append_eq_Cons_conv Cons_eq_append_conv)

subsection \<open>The reader thread\<close>

lemmas example_simps =
  example_frame_def example_processor_def example_files_def reader_thread_body_def
  reader_init_def is_frame_valid_def is_end_of_interval_def frame_time_def fill_container_def
  accept_def Let_def smod_zero_iff

lemma reader_thread_body_eq:
  "read_files p fsys reader_init (traj_files p) = (evs0, st, ex) \<Longrightarrow>
   reader_thread_body p fsys =
     (case ex of Normal \<Rightarrow> (evs0 @ [Send_stop], None)
      | Thrown m \<Rightarrow> (evs0 @ [Send_stop, Cout_error m], None)
      | Fatal err \<Rightarrow> (evs0, Some err))"
  by (simp add: reader_thread_body_def)

lemma reader_thread_body_sent:
  "read_files p fsys reader_init (traj_files p) = (evs0, st, ex) \<Longrightarrow>
   sent (fst (reader_thread_body p fsys)) = sent evs0"
  by (simp add: reader_thread_body_eq split: loop_exit.splits)

lemma reader_thread_body_numbered: "numbered (-1) (-1) (fst (reader_thread_body p fsys))"
proof -
  obtain evs0 st ex where rfs: "read_files p fsys reader_init (traj_files p) = (evs0, st, ex)"
    by (cases "read_files p fsys reader_init (traj_files p)") auto
  from read_files_numbered [OF rfs] have "numbered (-1) (-1) evs0"
    by (simp add: reader_init_def)
  then show ?thesis
    by (auto simp: reader_thread_body_eq [OF rfs] numbered_snoc split: loop_exit.splits)
qed

text \<open>
  C6: over the whole run of the reader, the absolute frame index of the containers sent
  is strictly increasing, and it counts the frames read so far across all files (a
  container sent after \<open>k\<close> frames have been read carries \<open>k - 1\<close>: one increment for
  each frame read, no reset at a file boundary); the valid-frame ordinal of a container
  is the number of containers sent before it (it starts at 0 and moves by one with each
  frame sent), and every frame sent was accepted by \<^verbatim>\<open>is_frame_valid\<close>.
\<close>

theorem frame_counters:
  "sorted_wrt (<) (map (\<lambda>d. fi_absolute_frame (frame_info d)) (sent (fst (reader_thread_body p fsys)))) \<and>
   (\<forall>a d b. fst (reader_thread_body p fsys) = a @ Send d # b \<longrightarrow>
      fi_absolute_frame (frame_info d) = int (reads a) - 1 \<and>
      fi_valid_frame (frame_info d) = int (length (sent a))) \<and>
   (\<forall>d \<in> set (sent (fst (reader_thread_body p fsys))).
      is_frame_valid p (fi_absolute_frame (frame_info d)) (frame_t (frame d)) = Inr True)"
proof -
  obtain evs0 st ex where rfs: "read_files p fsys reader_init (traj_files p) = (evs0, st, ex)"
    by (cases "read_files p fsys reader_init (traj_files p)") auto
  note s = reader_thread_body_sent [OF rfs]
  have 1: "sorted_wrt (<) (map (\<lambda>d. fi_absolute_frame (frame_info d)) (sent (fst (reader_thread_body p fsys))))"
    using read_files_sorted [OF rfs] by (simp add: s)
  have 2: "fi_absolute_frame (frame_info d) = int (reads a) - 1 \<and>
      fi_valid_frame (frame_info d) = int (length (sent a))"
    if "fst (reader_thread_body p fsys) = a @ Send d # b" for a d b
    using numbered_decomp [of "-1" "-1" a d b] reader_thread_body_numbered [of p fsys] that
    by simp
  have 3: "is_frame_valid p (fi_absolute_frame (frame_info d)) (frame_t (frame d)) = Inr True"
    if "d \<in> set (sent (fst (reader_thread_body p fsys)))" for d
    using read_files_accepted [OF rfs, of d] that
    by (simp add: s set_sent accepted_def Let_def)
  from 1 2 3 show ?thesis by blast
qed

theorem frame_counters_witness:
  "map (\<lambda>d. (fi_absolute_frame (frame_info d), fi_valid_frame (frame_info d)))
     (sent (fst (reader_thread_body (example_processor\<lparr>skip := 3\<rparr>) example_files)))
     = [(0, 0), (3, 1), (6, 2)] \<and>
   sorted_wrt (<) (map (\<lambda>d. fi_absolute_frame (frame_info d))
     (sent (fst (reader_thread_body (example_processor\<lparr>skip := 3\<rparr>) example_files))))"
  using frame_counters [of "example_processor\<lparr>skip := 3\<rparr>" example_files]
  by (simp add: example_simps)

text \<open>
  C7: whenever a frame is read that \<^verbatim>\<open>is_end_of_interval\<close> holds for (at its absolute
  index, the number of frames read before it, and its time), all the reader does after
  this read is to send stop (in the loop, and once more at its end): no frame is sent,
  no further frame is read and no further file is opened. The thread ends without a
  fatal error, also when \<^verbatim>\<open>is_frame_valid\<close> has none to give (\<open>skip = 0\<close>): the
  end of the interval is tested first. The time tested is the one stored in the frame,
  rounded to \<^verbatim>\<open>float\<close> when it is overridden: with \<^verbatim>\<open>custom_dt = 0.1f\<close> and
  \<^verbatim>\<open>last_time = 0.5\<close> the frame with index 5 has the time 0.5 exactly and is sent, and
  the reader stops at the frame with index 6.
\<close>

theorem end_of_interval_stops:
  assumes "reader_thread_body p fsys = (a @ Read (Some f) # b, fatal)"
    and "is_end_of_interval p (int (reads a)) (frame_time p (int (reads a)) f)"
  shows "b = [Send_stop, Send_stop] \<and> fatal = None"
proof -
  obtain evs0 st ex where rfs: "read_files p fsys reader_init (traj_files p) = (evs0, st, ex)"
    by (cases "read_files p fsys reader_init (traj_files p)") auto
  from read_files_ends [OF rfs]
  have fin: "finished st \<longrightarrow> ex = Normal" and ok: "ends_ok p 0 (finished st) evs0"
    by (simp_all add: reader_init_def)
  define tail where "tail = (case ex of Normal \<Rightarrow> [Send_stop] | Thrown m \<Rightarrow> [Send_stop, Cout_error m]
     | Fatal err \<Rightarrow> [])"
  have body: "evs0 @ tail = a @ Read (Some f) # b"
    using assms(1) by (simp add: reader_thread_body_eq [OF rfs] tail_def split: loop_exit.splits)
  have "Read (Some f) \<notin> set tail" by (simp add: tail_def split: loop_exit.splits)
  from append_decomp_left [OF body this]
  obtain b' where evs0: "evs0 = a @ Read (Some f) # b'" and b: "b = b' @ tail" by blast
  from ends_ok_decomp [of p 0 "finished st" a f b'] ok evs0 assms(2)
  have "finished st" and "b' = [Send_stop]" by simp_all
  with fin have "ex = Normal" by simp
  with b \<open>b' = [Send_stop]\<close> assms(1) show ?thesis
    by (simp add: reader_thread_body_eq [OF rfs] tail_def)
qed

theorem end_of_interval_stops_witness:
  "reader_thread_body (example_processor\<lparr>first_frame := 2, last_time := 101, skip := 0\<rparr>) example_files =
     ([Io_factory ''a.xtc'', Read (Some (example_frame 100)), Read (Some (example_frame 101))]
        @ Read (Some (example_frame 102)) # [Send_stop, Send_stop], None) \<and>
   is_end_of_interval (example_processor\<lparr>first_frame := 2, last_time := 101, skip := 0\<rparr>) 2 102 \<and>
   map (\<lambda>d. (fi_absolute_frame (frame_info d), frame_t (frame d)))
     (sent (fst (reader_thread_body
        (example_processor\<lparr>custom_start_time := 0, custom_dt := 13421773 / 134217728, last_time := 1 / 2\<rparr>)
        example_files))) =
     [(0, 0), (1, 13421773 / 134217728), (2, 13421773 / 67108864), (3, 5033165 / 16777216),
      (4, 13421773 / 33554432), (5, 1 / 2)] \<and>
   frame_time
     (example_processor\<lparr>custom_start_time := 0, custom_dt := 13421773 / 134217728, last_time := 1 / 2\<rparr>)
     6 (example_frame 106) = 5033165 / 8388608 \<and>
   (\<exists>a. reads a = 6 \<and>
      reader_thread_body
        (example_processor\<lparr>custom_start_time := 0, custom_dt := 13421773 / 134217728, last_time := 1 / 2\<rparr>)
        example_files = (a @ Read (Some (example_frame 106)) # [Send_stop, Send_stop], None))"
proof -
  let ?p = "example_processor\<lparr>first_frame := 2, last_time := 101, skip := 0\<rparr>"
  let ?a = "[Io_factory ''a.xtc'', Read (Some (example_frame 100)), Read (Some (example_frame 101))]"
  obtain b fatal where rb: "reader_thread_body ?p example_files = (?a @ Read (Some (example_frame 102)) # b, fatal)"
    by (simp add: example_simps)
  have e: "is_end_of_interval ?p (int (reads ?a)) (frame_time ?p (int (reads ?a)) (example_frame 102))"
    by (simp add: example_simps)
  let ?q = "example_processor\<lparr>custom_start_time := 0, custom_dt := 13421773 / 134217728, last_time := 1 / 2\<rparr>"
  let ?c = "\<lambda>k x tm. Send (fill_container ?q
      \<lparr>abs_frame = k, valid_frame = k, saved_first_frame = 0, saved_first_time = 0, finished = False\<rparr>
      (example_frame x) tm)"
  let ?a' = "[Io_factory ''a.xtc'',
      Read (Some (example_frame 100)), ?c 0 100 0,
      Read (Some (example_frame 101)), ?c 1 101 (13421773 / 134217728),
      Read (Some (example_frame 102)), ?c 2 102 (13421773 / 67108864),
      Read (Some (example_frame 103)), ?c 3 103 (5033165 / 16777216),
      Read None, Io_factory ''b.xtc'',
      Read (Some (example_frame 104)), ?c 4 104 (13421773 / 33554432),
      Read (Some (example_frame 105)), ?c 5 105 (1 / 2)]"
  obtain b' fatal' where rb': "reader_thread_body ?q example_files =
      (?a' @ Read (Some (example_frame 106)) # b', fatal')"
    by (simp add: example_simps float_examples)
  have e': "is_end_of_interval ?q (int (reads ?a')) (frame_time ?q (int (reads ?a')) (example_frame 106))"
    by (simp add: example_simps float_examples)
  have r: "reads ?a' = 6" by simp
  have t: "frame_time ?q 6 (example_frame 106) = 5033165 / 8388608"
    by (simp add: example_simps float_examples)
  from end_of_interval_stops [OF rb' e'] rb'
  have full: "reader_thread_body ?q example_files =
      (?a' @ Read (Some (example_frame 106)) # [Send_stop, Send_stop], None)" by simp
  then have ex: "\<exists>a. reads a = 6 \<and> reader_thread_body ?q example_files =
      (a @ Read (Some (example_frame 106)) # [Send_stop, Send_stop], None)"
    using r by blast
  have snt: "map (\<lambda>d. (fi_absolute_frame (frame_info d), frame_t (frame d)))
      (sent (fst (reader_thread_body ?q example_files))) =
     [(0, 0), (1, 13421773 / 134217728), (2, 13421773 / 67108864), (3, 5033165 / 16777216),
      (4, 13421773 / 33554432), (5, 1 / 2)]"
    by (simp add: full fill_container_def)
  from end_of_interval_stops [OF rb e] rb e have
    "reader_thread_body ?p example_files =
       (?a @ Read (Some (example_frame 102)) # [Send_stop, Send_stop], None) \<and>
     is_end_of_interval ?p 2 102"
    by (simp add: example_simps)
  with snt t ex show ?thesis by blast
qed



subsection \<open>The set-up of a run\<close>

lemma sort_files_Inr:
  "sort_files rf ss (sf, tf, tfs) = Inr (sf', tf', tfs') \<Longrightarrow>
   tfs' = tfs @ filter (\<lambda>s. rf s \<in> {TRR_FILE, XTC_FILE, DCD_FILE}) ss \<and>
   (sf' = sf \<or> rf sf' \<in> {PDB_FILE, GRO_FILE}) \<and> (tf' = tf \<or> rf tf' = PTTOP_FILE)"
proof (induction ss arbitrary: sf tf tfs)
  case Nil
  then show ?case by simp
next
  case (Cons s ss)
  show ?case
  proof (cases "rf s")
    case PDB_FILE
    with Cons.prems have "sort_files rf ss (s, tf, tfs) = Inr (sf', tf', tfs')" and "sf = []"
      by (auto split: if_splits)
    from Cons.IH [OF this(1)] PDB_FILE show ?thesis by auto
  next
    case GRO_FILE
    with Cons.prems have "sort_files rf ss (s, tf, tfs) = Inr (sf', tf', tfs')" and "sf = []"
      by (auto split: if_splits)
    from Cons.IH [OF this(1)] GRO_FILE show ?thesis by auto
  next
    case PTTOP_FILE
    with Cons.prems have "sort_files rf ss (sf, s, tfs) = Inr (sf', tf', tfs')"
      by (auto split: if_splits)
    from Cons.IH [OF this] PTTOP_FILE show ?thesis by auto
  next
    case TRR_FILE
    with Cons.prems have "sort_files rf ss (sf, tf, tfs @ [s]) = Inr (sf', tf', tfs')" by simp
    from Cons.IH [OF this] TRR_FILE show ?thesis by simp
  next
    case XTC_FILE
    with Cons.prems have "sort_files rf ss (sf, tf, tfs @ [s]) = Inr (sf', tf', tfs')" by simp
    from Cons.IH [OF this] XTC_FILE show ?thesis by simp
  next
    case DCD_FILE
    with Cons.prems have "sort_files rf ss (sf, tf, tfs @ [s]) = Inr (sf', tf', tfs')" by simp
    from Cons.IH [OF this] DCD_FILE show ?thesis by simp
  next
    case OTHER_FILE
    with Cons.prems have "sort_files rf ss (sf, tf, tfs) = Inr (sf', tf', tfs')" by simp
    from Cons.IH [OF this] OTHER_FILE show ?thesis by simp
  qed
qed

lemma sort_files_no_structure:
  "\<forall>s \<in> set ss. rf s \<notin> {PDB_FILE, GRO_FILE, PTTOP_FILE} \<Longrightarrow>
   sort_files rf ss (sf, tf, tfs) =
     Inr (sf, tf, tfs @ filter (\<lambda>s. rf s \<in> {TRR_FILE, XTC_FILE, DCD_FILE}) ss)"
proof (induction ss arbitrary: tfs)
  case Nil
  then show ?case by simp
next
  case (Cons s ss)
  then show ?case by (cases "rf s") auto
qed

lemma load_all_events:
  "load_all ld fs = (evs, r) \<Longrightarrow> set evs \<subseteq> System_load ` set fs"
proof (induction fs arbitrary: evs r)
  case Nil
  then show ?case by simp
next
  case (Cons f fs)
  then show ?case by (auto split: option.splits prod.splits)
qed

lemma files_to_load_formats:
  "sf = [] \<or> rf sf \<in> {PDB_FILE, GRO_FILE} \<Longrightarrow> tf = [] \<or> rf tf = PTTOP_FILE \<Longrightarrow>
   f \<in> set (files_to_load sf tf) \<Longrightarrow> rf f \<in> {PDB_FILE, GRO_FILE, PTTOP_FILE}"
  by (auto simp: files_to_load_def split: if_splits)

lemma get_parameters_range:
  "(first_frame (get_parameters trj tfs li) \<ge> 0 \<and> last_frame (get_parameters trj tfs li) \<ge> 0
      \<and> last_frame (get_parameters trj tfs li) < first_frame (get_parameters trj tfs li))
   \<or> (first_time (get_parameters trj tfs li) \<ge> 0 \<and> last_time (get_parameters trj tfs li) \<ge> 0
      \<and> last_time (get_parameters trj tfs li) < first_time (get_parameters trj tfs li))
   \<longleftrightarrow> invalid_range trj"
  by (simp add: get_parameters_def invalid_range_def Let_def)

lemma range_tests:
  "invalid_range trj \<Longrightarrow>
   \<not> (first_frame (get_parameters trj tfs li) \<ge> 0 \<and> last_frame (get_parameters trj tfs li) \<ge> 0
      \<and> last_frame (get_parameters trj tfs li) < first_frame (get_parameters trj tfs li)) \<Longrightarrow>
   first_time (get_parameters trj tfs li) \<ge> 0 \<and> last_time (get_parameters trj tfs li) \<ge> 0
      \<and> last_time (get_parameters trj tfs li) < first_time (get_parameters trj tfs li)"
  using get_parameters_range [of trj tfs li] by blast

text \<open>
  C10: if no file of the trajectory block is a structure file or a topology file (and
  nothing else is wrong: a consumer, a trajectory file, a valid range), \<^verbatim>\<open>run\<close> raises
  nothing: it clears the system of the first consumer, loads nothing into it, copies it
  to the other consumers, starts the reader thread and goes on to dispatch.
\<close>

theorem missing_structure_not_raised:
  assumes "n > 0"
    and "\<forall>s \<in> set (unnamed_values trj). rf s \<notin> {PDB_FILE, GRO_FILE, PTTOP_FILE}"
    and "trajectory_files rf trj \<noteq> []"
    and "\<not> invalid_range trj"
  shows "run n li rf ld fsys options trj sched =
     ((if get_value (string_values options) ''dump_input'' [] \<noteq> []
       then [Dump_input (get_value (string_values options) ''dump_input'' [])] else [])
      @ System_clear # map System_copy [1..<n]
      @ [Set_buffer_size (get_value (int_values options) ''buffer_size'' 10), Start_reader_thread],
      Inr (exec sched (init_system n (get_value (int_values options) ''buffer_size'' 10)
             (reader_thread_body (get_parameters trj (trajectory_files rf trj) li) fsys))))"
proof -
  let ?tfs = "trajectory_files rf trj"
  have sf: "sort_files rf (unnamed_values trj) ([], [], []) = Inr ([], [], ?tfs)"
    using sort_files_no_structure [OF assms(2), of "[]" "[]" "[]"]
    by (simp add: trajectory_files_def)
  have ld: "load_all ld (files_to_load [] []) = ([], None)"
    by (simp add: files_to_load_def)
  from assms(4) get_parameters_range [of trj ?tfs li]
  have r1: "\<not> (first_frame (get_parameters trj ?tfs li) \<ge> 0 \<and> last_frame (get_parameters trj ?tfs li) \<ge> 0
      \<and> last_frame (get_parameters trj ?tfs li) < first_frame (get_parameters trj ?tfs li))"
    and r2: "\<not> (first_time (get_parameters trj ?tfs li) \<ge> 0 \<and> last_time (get_parameters trj ?tfs li) \<ge> 0
      \<and> last_time (get_parameters trj ?tfs li) < first_time (get_parameters trj ?tfs li))"
    by blast+
  from assms(1,3) r1 r2 show ?thesis
    by (simp add: run_def run_setup_def Let_def sf ld)
qed

theorem missing_structure_not_raised_witness:
  "fst (run 1 (-1) example_formats (\<lambda>f. None) example_files example_options example_trajectory []) =
     [System_clear, Set_buffer_size 10, Start_reader_thread]"
proof -
  have 1: "(1::nat) > 0" by simp
  have 2: "\<forall>s \<in> set (unnamed_values example_trajectory).
      example_formats s \<notin> {PDB_FILE, GRO_FILE, PTTOP_FILE}"
    by (simp add: example_trajectory_def example_formats_def)
  have 3: "trajectory_files example_formats example_trajectory \<noteq> []"
    by (simp add: trajectory_files_def example_trajectory_def example_formats_def)
  have 4: "\<not> invalid_range example_trajectory"
    by (simp add: invalid_range_def example_trajectory_def get_value_def)
  from missing_structure_not_raised [OF 1 2 3 4, of "-1" "\<lambda>f. None" example_files example_options "[]"]
  show ?thesis by (simp add: example_options_def get_value_def)
qed

text \<open>
  C4, as stated, fails: with a structure file, a trajectory file and the range 5 to 3,
  \<^verbatim>\<open>run\<close> has cleared the system and loaded the structure file when it throws.
\<close>

theorem invalid_range_after_load:
  "configuration_error 1 example_formats
     (example_trajectory\<lparr>unnamed_values := [''s.pdb'', ''a.xtc''],
        int_values := [''first_frame'' \<mapsto> 5, ''last_frame'' \<mapsto> 3]\<rparr>) \<and>
   run 1 (-1) example_formats (\<lambda>f. None) example_files example_options
     (example_trajectory\<lparr>unnamed_values := [''s.pdb'', ''a.xtc''],
        int_values := [''first_frame'' \<mapsto> 5, ''last_frame'' \<mapsto> 3]\<rparr>) [] =
     ([System_clear, System_load ''s.pdb''],
      Inl (Pteros_error ''Last frame is smaller that first frame''))"
  by (simp add: configuration_error_def invalid_range_def run_def run_setup_def get_value_def
      example_trajectory_def example_options_def example_formats_def files_to_load_def
      get_parameters_def Let_def)

text \<open>
  C4, amended: every configuration error makes \<^verbatim>\<open>run\<close> throw before the reader thread
  is started (so before any trajectory file is opened: only the reader opens them);
  the files loaded by then are structure or topology files, none is loaded when there is
  no trajectory file, and nothing at all is done when there is no consumer.
\<close>

theorem configuration_error_fatal:
  assumes "configuration_error n rf trj"
  shows "\<exists>evs err. run n li rf ld fsys options trj sched = (evs, Inl err) \<and>
     Start_reader_thread \<notin> set evs \<and>
     (\<forall>f. System_load f \<in> set evs \<longrightarrow> rf f \<in> {PDB_FILE, GRO_FILE, PTTOP_FILE}) \<and>
     (n = 0 \<longrightarrow> evs = []) \<and>
     (trajectory_files rf trj = [] \<longrightarrow> (\<forall>f. System_load f \<notin> set evs))"
proof (cases "n = 0")
  case True
  then show ?thesis by (simp add: run_def run_setup_def)
next
  case n: False
  define ev1 where "ev1 = (if get_value (string_values options) ''dump_input'' [] \<noteq> []
       then [Dump_input (get_value (string_values options) ''dump_input'' [])] else [])"
  have ev1: "Start_reader_thread \<notin> set ev1" "\<And>f. System_load f \<notin> set ev1"
    by (simp_all add: ev1_def)
  show ?thesis
  proof (cases "sort_files rf (unnamed_values trj) ([], [], [])")
    case (Inl err)
    with n have "run n li rf ld fsys options trj sched = (ev1, Inl err)"
      by (simp add: run_def run_setup_def Let_def ev1_def)
    with ev1 n show ?thesis by simp
  next
    case (Inr r)
    obtain sf tf tfs where r: "r = (sf, tf, tfs)" by (cases r) auto
    from sort_files_Inr [OF Inr [unfolded r]]
    have tfs: "tfs = trajectory_files rf trj"
      and sf: "sf = [] \<or> rf sf \<in> {PDB_FILE, GRO_FILE}" and tf: "tf = [] \<or> rf tf = PTTOP_FILE"
      by (simp_all add: trajectory_files_def)
    show ?thesis
    proof (cases "tfs = []")
      case True
      with n Inr r
      have "run n li rf ld fsys options trj sched =
          (ev1, Inl (Pteros_error ''At least one trajectory file is required!''))"
        by (simp add: run_def run_setup_def Let_def ev1_def)
      with ev1 n show ?thesis by simp
    next
      case nonempty: False
      obtain ev2 res where la: "load_all ld (files_to_load sf tf) = (ev2, res)"
        by (cases "load_all ld (files_to_load sf tf)") auto
      from load_all_events [OF la] files_to_load_formats [OF sf tf]
      have ev2: "Start_reader_thread \<notin> set ev2"
        "\<And>f. System_load f \<in> set ev2 \<Longrightarrow> rf f \<in> {PDB_FILE, GRO_FILE, PTTOP_FILE}"
        by auto
      show ?thesis
      proof (cases res)
        case (Some err)
        with n Inr r nonempty la
        have "run n li rf ld fsys options trj sched = (ev1 @ System_clear # ev2, Inl err)"
          by (simp add: run_def run_setup_def Let_def ev1_def)
        with ev1 ev2 n nonempty tfs show ?thesis by auto
      next
        case None
        from assms n nonempty tfs have inv: "invalid_range trj"
          by (simp add: configuration_error_def)
        let ?p = "get_parameters trj tfs li"
        let ?done = "ev1 @ System_clear # ev2 @ map System_copy [1..<n]"
        have "\<exists>err. run n li rf ld fsys options trj sched = (?done, Inl err)"
        proof (cases "first_frame ?p \<ge> 0 \<and> last_frame ?p \<ge> 0 \<and> last_frame ?p < first_frame ?p")
          case True
          with n Inr r nonempty la None show ?thesis
            by (simp add: run_def run_setup_def Let_def ev1_def)
        next
          case False
          from range_tests [OF inv False]
          have "first_time ?p \<ge> 0 \<and> last_time ?p \<ge> 0 \<and> last_time ?p < first_time ?p" .
          with False n Inr r nonempty la None show ?thesis
            by (simp add: run_def run_setup_def Let_def ev1_def)
        qed
        then obtain err where "run n li rf ld fsys options trj sched = (?done, Inl err)" ..
        moreover have "Start_reader_thread \<notin> set ?done" using ev1 ev2 by auto
        moreover have "\<forall>f. System_load f \<in> set ?done \<longrightarrow> rf f \<in> {PDB_FILE, GRO_FILE, PTTOP_FILE}"
          using ev1 ev2 by auto
        ultimately show ?thesis using n nonempty tfs by auto
      qed
    qed
  qed
qed

theorem configuration_error_fatal_witness:
  "configuration_error 2 example_formats (example_trajectory\<lparr>unnamed_values := [''s.pdb'']\<rparr>) \<and>
   (\<exists>err. run 2 (-1) example_formats (\<lambda>f. None) example_files example_options
       (example_trajectory\<lparr>unnamed_values := [''s.pdb'']\<rparr>) [Reader_thread, Dispatcher] = ([], Inl err))"
proof -
  let ?trj = "example_trajectory\<lparr>unnamed_values := [''s.pdb'']\<rparr>"
  have c: "configuration_error 2 example_formats ?trj"
    by (simp add: configuration_error_def trajectory_files_def example_trajectory_def
        example_formats_def)
  have t: "trajectory_files example_formats ?trj = []"
    by (simp add: trajectory_files_def example_trajectory_def example_formats_def)
  from configuration_error_fatal [OF c, of "-1" "\<lambda>f. None" example_files example_options
      "[Reader_thread, Dispatcher]"]
  obtain evs err where
    "run 2 (-1) example_formats (\<lambda>f. None) example_files example_options ?trj
       [Reader_thread, Dispatcher] = (evs, Inl err)" by blast
  moreover have "fst (run 2 (-1) example_formats (\<lambda>f. None) example_files example_options ?trj
       [Reader_thread, Dispatcher]) = []"
    by (simp add: run_def run_setup_def get_value_def example_trajectory_def example_options_def
        example_formats_def Let_def)
  ultimately show ?thesis using c by auto
qed

subsection \<open>The dispatcher and its threads\<close>

lemma forwarded_append [simp]: "forwarded i (xs @ ys) = forwarded i xs @ forwarded i ys"
  by (induction i xs rule: forwarded.induct) auto

lemma consumed_append [simp]: "consumed i (xs @ ys) = consumed i xs @ consumed i ys"
  by (induction i xs rule: consumed.induct) auto

lemma worker_ops_append [simp]: "worker_ops i (xs @ ys) = worker_ops i xs @ worker_ops i ys"
  by (induction i xs rule: worker_ops.induct) auto

lemma calls_append [simp]: "calls i (xs @ ys) = calls i xs @ calls i ys"
  by (induction i xs rule: calls.induct) auto

lemma last_ptr_Nil [simp]: "last_ptr [] = None"
  by (simp add: last_ptr_def)

lemma last_ptr_snoc [simp]: "last_ptr (xs @ [d]) = d"
  by (simp add: last_ptr_def)

lemma source_rest_reader_step: "source_rest (reader_step s) = source_rest s"
proof (cases "reader s")
  case Nil
  then show ?thesis by (simp add: reader_step_def source_rest_def split: option.splits)
next
  case (Cons ev evs)
  then show ?thesis
    by (cases ev)
       (auto simp: reader_step_def source_rest_def channel_send_def channel_send_stop_def
          split: option.splits if_splits)
qed

lemma reader_step_fields:
  "dpc (reader_step s) = dpc s" "data (reader_step s) = data s" "trace (reader_step s) = trace s"
  "nconsumers (reader_step s) = nconsumers s" "worker_channels (reader_step s) = worker_channels s"
  "workers (reader_step s) = workers s"
  by (auto simp: reader_step_def split: list.splits reader_event.splits option.splits)

lemma reader_step_past_loop:
  "queue (channel s) = [] \<and> stop_requested (channel s) \<Longrightarrow>
   queue (channel (reader_step s)) = [] \<and> stop_requested (channel (reader_step s))"
  by (auto simp: reader_step_def channel_send_def channel_send_stop_def
      split: list.splits reader_event.splits option.splits)

lemma fan_inv_reader: "fan_inv S i s \<Longrightarrow> fan_inv S i (reader_step s)"
  unfolding fan_inv_def
  by (simp add: reader_step_fields source_rest_reader_step reader_step_past_loop)

lemma fan_inv_worker:
  assumes inv: "fan_inv S i s"
  shows "fan_inv S i (worker_step j s)"
proof (cases "j < length (workers s)")
  case False
  with inv show ?thesis by (simp add: worker_step_def)
next
  case j: True
  show ?thesis
  proof (cases "wpc (workers s ! j)")
    case W_pre_process
    with j inv show ?thesis
      by (auto simp: fan_inv_def worker_step_def Let_def source_rest_def nth_list_update)
  next
    case W_done
    with j inv show ?thesis by (simp add: worker_step_def Let_def)
  next
    case W_recieve
    show ?thesis
    proof (cases "channel_recieve (worker_channels s ! j) (wdata (workers s ! j))")
      case None
      with j W_recieve inv show ?thesis by (simp add: worker_step_def Let_def)
    next
      case (Some r)
      obtain ok d ch where r: "r = (ok, d, ch)" by (cases r) auto
      show ?thesis
      proof (cases "i = j")
        case False
        with j W_recieve Some r inv show ?thesis
          by (auto simp: fan_inv_def worker_step_def Let_def source_rest_def nth_list_update)
      next
        case True
        with j W_recieve Some r inv show ?thesis
          by (auto simp: fan_inv_def worker_step_def Let_def source_rest_def nth_list_update
              channel_recieve_def split: list.splits if_splits)
      qed
    qed
  qed
qed

lemma fan_inv_dispatcher:
  assumes inv: "fan_inv S i s"
  shows "fan_inv S i (dispatcher_step s)"
proof (cases "dpc s")
  case Pre_process
  with inv show ?thesis by (simp add: fan_inv_def)
next
  case Recieve_loop
  show ?thesis
  proof (cases "channel_recieve (channel s) (data s)")
    case None
    with Recieve_loop inv show ?thesis by (simp add: dispatcher_step_def)
  next
    case (Some r)
    obtain ok d ch where r: "r = (ok, d, ch)" by (cases r) auto
    with Recieve_loop Some inv show ?thesis
      by (auto simp: fan_inv_def dispatcher_step_def deliver_def source_rest_def
          channel_recieve_def split: list.splits if_splits)
  qed
next
  case (Fan_send k dr)
  show ?thesis
  proof (cases "channel_send (data s) (worker_channels s ! k)")
    case None
    with Fan_send inv show ?thesis by (simp add: dispatcher_step_def)
  next
    case (Some ch)
    from inv Fan_send have k: "k < nconsumers s" "\<not> dr" "k < length (worker_channels s)"
      by (simp_all add: fan_inv_def)
    show ?thesis
    proof (cases "i = k")
      case True
      with Fan_send Some inv k show ?thesis
        by (auto simp: fan_inv_def dispatcher_step_def source_rest_def channel_send_def
            split: if_splits)
    next
      case False
      with Fan_send Some inv k show ?thesis
        by (auto simp: fan_inv_def dispatcher_step_def source_rest_def)
    qed
  qed
next
  case Drain_test
  with inv show ?thesis
    by (auto simp: fan_inv_def dispatcher_step_def source_rest_def channel_empty_def)
next
  case Drain_recieve
  with inv show ?thesis by (simp add: fan_inv_def)
next
  case (Stop_workers k)
  from inv Stop_workers have k: "k < nconsumers s" "k < length (worker_channels s)"
    by (simp_all add: fan_inv_def)
  show ?thesis
  proof (cases "i = k")
    case True
    with Stop_workers inv k show ?thesis
      by (auto simp: fan_inv_def dispatcher_step_def source_rest_def channel_send_stop_def)
  next
    case False
    with Stop_workers inv k show ?thesis
      by (auto simp: fan_inv_def dispatcher_step_def source_rest_def)
  qed
next
  case Post_process
  with inv show ?thesis by (simp add: fan_inv_def)
next
  case Join_reader
  with inv show ?thesis
    by (auto simp: fan_inv_def dispatcher_step_def source_rest_def)
next
  case Join_workers
  with inv show ?thesis
    by (auto simp: fan_inv_def dispatcher_step_def source_rest_def list_all_length)
next
  case Returned
  with inv show ?thesis by (simp add: dispatcher_step_def)
qed

lemma fan_inv_step: "fan_inv S i s \<Longrightarrow> fan_inv S i (step th s)"
  by (cases th) (auto simp: step_def fan_inv_reader fan_inv_dispatcher fan_inv_worker)

lemma fan_inv_exec: "fan_inv S i s \<Longrightarrow> fan_inv S i (exec sched s)"
  by (induction sched arbitrary: s) (auto simp: fan_inv_step)

lemma fan_inv_init:
  "1 < n \<Longrightarrow> i < n \<Longrightarrow> fan_inv (map Some (sent_before_stop (fst rd))) i (init_system n buf rd)"
  by (simp add: fan_inv_def init_system_def source_rest_def new_channel_def)

lemma single_inv_reader: "single_inv S s \<Longrightarrow> single_inv S (reader_step s)"
  unfolding single_inv_def
  by (auto simp: reader_step_fields source_rest_reader_step reader_step_past_loop
      split: if_splits)

lemma single_inv_worker: "single_inv S s \<Longrightarrow> single_inv S (worker_step j s)"
  by (auto simp: single_inv_def worker_step_def split: if_splits)

lemma single_inv_dispatcher:
  assumes inv: "single_inv S s"
  shows "single_inv S (dispatcher_step s)"
proof (cases "dpc s")
  case Pre_process
  with inv show ?thesis
    by (auto simp: single_inv_def dispatcher_step_def source_rest_def)
next
  case Recieve_loop
  show ?thesis
  proof (cases "channel_recieve (channel s) (data s)")
    case None
    with Recieve_loop inv show ?thesis by (simp add: dispatcher_step_def)
  next
    case (Some r)
    obtain ok d ch where r: "r = (ok, d, ch)" by (cases r) auto
    with Recieve_loop Some inv show ?thesis
      by (auto simp: single_inv_def dispatcher_step_def deliver_def source_rest_def
          channel_recieve_def last_ptr_def split: list.splits if_splits)
  qed
next
  case (Fan_send k dr)
  with inv show ?thesis by (simp add: single_inv_def)
next
  case Drain_test
  with inv show ?thesis
    by (auto simp: single_inv_def dispatcher_step_def source_rest_def channel_empty_def)
next
  case Drain_recieve
  with inv show ?thesis by (simp add: single_inv_def)
next
  case (Stop_workers k)
  with inv show ?thesis by (simp add: single_inv_def)
next
  case Post_process
  with inv show ?thesis
    by (auto simp: single_inv_def dispatcher_step_def source_rest_def split: option.splits)
next
  case Join_reader
  with inv show ?thesis
    by (auto simp: single_inv_def dispatcher_step_def source_rest_def)
next
  case Join_workers
  with inv show ?thesis by (simp add: single_inv_def)
next
  case Returned
  with inv show ?thesis by (simp add: dispatcher_step_def)
qed

lemma single_inv_step: "single_inv S s \<Longrightarrow> single_inv S (step th s)"
  by (cases th) (auto simp: step_def single_inv_reader single_inv_dispatcher single_inv_worker)

lemma single_inv_exec: "single_inv S s \<Longrightarrow> single_inv S (exec sched s)"
  by (induction sched arbitrary: s) (auto simp: single_inv_step)

lemma single_inv_init:
  "single_inv (map Some (sent_before_stop (fst rd))) (init_system 1 buf rd)"
  by (simp add: single_inv_def init_system_def source_rest_def new_channel_def last_ptr_def)

lemma single_consumed:
  assumes "dpc (exec sched (init_system 1 buf rd)) \<in> {Post_process, Join_reader, Returned}"
  shows "consumed 0 (trace (exec sched (init_system 1 buf rd))) = map Some (sent_before_stop (fst rd))"
proof -
  let ?s = "exec sched (init_system 1 buf rd)"
  have inv: "single_inv (map Some (sent_before_stop (fst rd))) ?s"
    by (rule single_inv_exec [OF single_inv_init])
  from assms have "past_loop (dpc ?s)" by auto
  with inv show ?thesis by (auto simp: single_inv_def source_rest_def)
qed

lemma fan_consumed:
  assumes "1 < n" and "i < n"
    and "wpc (workers (exec sched (init_system n buf rd)) ! i) = W_done"
  shows "consumed i (trace (exec sched (init_system n buf rd))) = map Some (sent_before_stop (fst rd))"
proof -
  let ?s = "exec sched (init_system n buf rd)"
  have inv: "fan_inv (map Some (sent_before_stop (fst rd))) i ?s"
    by (rule fan_inv_exec [OF fan_inv_init [OF assms(1,2)]])
  with assms(3) have c: "closed_for i (dpc ?s)" and q: "queue (worker_channels ?s ! i) = []"
    by (simp_all add: fan_inv_def)
  from c have "past_loop (dpc ?s)" "pending_for i (dpc ?s) (data ?s) = []"
    by (cases "dpc ?s"; simp)+
  with inv q show ?thesis by (auto simp: fan_inv_def source_rest_def)
qed

subsection \<open>Every run can be completed\<close>

lemma sum_list_map_update:
  "k < length xs \<Longrightarrow>
   sum_list (map f (xs[k := v])) + f (xs ! k) = sum_list (map f xs) + (f v :: nat)"
proof (induction xs arbitrary: k)
  case Nil
  then show ?case by simp
next
  case (Cons x xs)
  then show ?case by (cases k) auto
qed

lemma sum_list_map_update_less:
  "k < length xs \<Longrightarrow> (f v :: nat) < f (xs ! k) \<Longrightarrow>
   sum_list (map f (xs[k := v])) < sum_list (map f xs)"
  using sum_list_map_update [of k xs f v] by simp

lemma sum_list_map_update_same:
  "k < length xs \<Longrightarrow> (f v :: nat) = f (xs ! k) \<Longrightarrow>
   sum_list (map f (xs[k := v])) = sum_list (map f xs)"
  using sum_list_map_update [of k xs f v] by simp

lemma sum_list_map_update_Suc:
  "k < length xs \<Longrightarrow> (f v :: nat) = Suc (f (xs ! k)) \<Longrightarrow>
   sum_list (map f (xs[k := v])) = Suc (sum_list (map f xs))"
  using sum_list_map_update [of k xs f v] by simp

lemma reader_progress:
  assumes "reader s \<noteq> []"
    and "stop_requested (channel s) \<or> int (length (queue (channel s))) < buffer_size (channel s)"
  shows "work_left (reader_step s) < work_left s"
proof -
  from assms(1) obtain ev evs where r: "reader s = ev # evs" by (cases "reader s") auto
  with assms(2) show ?thesis
    by (cases ev)
       (auto simp: work_left_def reader_step_def channel_send_def channel_send_stop_def)
qed

lemma live_reader: "live s \<Longrightarrow> live (reader_step s)"
proof (cases "reader s")
  case Nil
  assume "live s"
  with Nil show ?thesis by (simp add: live_def reader_step_def)
next
  case (Cons ev evs)
  assume "live s"
  with Cons show ?thesis
    by (cases ev)
       (auto simp: live_def reader_step_def channel_send_def channel_send_stop_def
          split: option.splits if_splits)
qed

lemma live_worker: "live s \<Longrightarrow> live (worker_step j s)"
  by (auto simp: live_def worker_step_def Let_def channel_recieve_def list_all_length
      nth_list_update split: worker_pc.splits option.splits list.splits if_splits)

lemma live_dispatcher:
  assumes "live s" and "fan_pc_ok (nconsumers s) (dpc s)"
    and "length (worker_channels s) = nconsumers s"
  shows "live (dispatcher_step s)"
proof (cases "dpc s")
  case Recieve_loop
  with assms show ?thesis
    by (auto simp: live_def dispatcher_step_def deliver_def channel_recieve_def
        split: option.splits list.splits if_splits)
next
  case (Fan_send k dr)
  with assms show ?thesis
    by (auto simp: live_def dispatcher_step_def channel_send_def list_all_length nth_list_update
        split: option.splits if_splits)
next
  case (Stop_workers k)
  with assms show ?thesis
    by (auto simp: live_def dispatcher_step_def channel_send_stop_def list_all_length
        nth_list_update)
qed (use assms in \<open>auto simp: live_def dispatcher_step_def\<close>)

lemma live_step:
  assumes "live s" and "fan_inv S i s"
  shows "live (step th s)"
proof -
  from assms(2) have "fan_pc_ok (nconsumers s) (dpc s)" "length (worker_channels s) = nconsumers s"
    by (simp_all add: fan_inv_def)
  with assms(1) show ?thesis
    by (cases th) (auto simp: step_def live_reader live_dispatcher live_worker)
qed

lemma dispatcher_progress:
  assumes inv: "fan_inv S 0 s" and pc: "dpc s \<noteq> Returned"
    and can: "case dpc s of
        Recieve_loop \<Rightarrow> queue (channel s) \<noteq> [] \<or> stop_requested (channel s)
      | Fan_send k dr \<Rightarrow> int (length (queue (worker_channels s ! k))) < buffer_size (worker_channels s ! k)
          \<or> stop_requested (worker_channels s ! k)
      | Join_reader \<Rightarrow> reader s = [] \<and> reader_fatal s = None
      | Join_workers \<Rightarrow> list_all (\<lambda>w. wpc w = W_done) (workers s)
      | _ \<Rightarrow> True"
  shows "work_left (dispatcher_step s) < work_left s"
proof (cases "dpc s")
  case Recieve_loop
  with inv can show ?thesis
    by (auto simp: fan_inv_def work_left_def dispatcher_step_def deliver_def channel_recieve_def
        split: list.splits)
next
  case (Fan_send k dr)
  from inv Fan_send have k: "k < nconsumers s" "k < length (worker_channels s)"
    by (simp_all add: fan_inv_def)
  let ?c = "worker_channels s ! k"
  show ?thesis
  proof (cases "stop_requested ?c")
    case True
    with Fan_send k show ?thesis
      by (auto simp: work_left_def dispatcher_step_def channel_send_def list_update_same_conv)
  next
    case False
    with can Fan_send have nf: "\<not> int (length (queue ?c)) \<ge> buffer_size ?c" by simp
    have "sum_list (map (\<lambda>c. length (queue c)) ((worker_channels s)[k := ?c\<lparr>queue := queue ?c @ [data s]\<rparr>]))
        = Suc (sum_list (map (\<lambda>c. length (queue c)) (worker_channels s)))"
      using k by (intro sum_list_map_update_Suc) simp_all
    with Fan_send k False nf show ?thesis
      by (auto simp: work_left_def dispatcher_step_def channel_send_def)
  qed
next
  case Drain_test
  with inv show ?thesis
    by (auto simp: fan_inv_def work_left_def dispatcher_step_def channel_empty_def)
next
  case (Stop_workers k)
  from inv Stop_workers have k: "k < nconsumers s" "k < length (worker_channels s)"
    by (simp_all add: fan_inv_def)
  have "sum_list (map (\<lambda>c. length (queue c))
        ((worker_channels s)[k := channel_send_stop (worker_channels s ! k)]))
      = sum_list (map (\<lambda>c. length (queue c)) (worker_channels s))"
    using k by (intro sum_list_map_update_same) (simp_all add: channel_send_stop_def)
  with Stop_workers k show ?thesis
    by (auto simp: work_left_def dispatcher_step_def)
next
  case Join_reader
  with inv can show ?thesis
    by (auto simp: fan_inv_def work_left_def dispatcher_step_def)
next
  case Join_workers
  with inv can show ?thesis
    by (auto simp: fan_inv_def work_left_def dispatcher_step_def)
qed (use inv pc in \<open>auto simp: fan_inv_def\<close>)

lemma worker_progress:
  assumes j: "j < length (workers s)" "j < length (worker_channels s)"
    and can: "case wpc (workers s ! j) of
        W_pre_process \<Rightarrow> True
      | W_recieve \<Rightarrow> queue (worker_channels s ! j) \<noteq> [] \<or> stop_requested (worker_channels s ! j)
      | W_done \<Rightarrow> False"
  shows "work_left (worker_step j s) < work_left s"
proof (cases "wpc (workers s ! j)")
  case W_pre_process
  have "sum_list (map (\<lambda>w. worker_rank (wpc w)) ((workers s)[j := (workers s ! j)\<lparr>wpc := W_recieve\<rparr>]))
      < sum_list (map (\<lambda>w. worker_rank (wpc w)) (workers s))"
    using j W_pre_process by (intro sum_list_map_update_less) simp_all
  with j W_pre_process show ?thesis
    by (simp add: work_left_def worker_step_def Let_def)
next
  case W_recieve
  let ?c = "worker_channels s ! j"
  show ?thesis
  proof (cases "queue ?c")
    case Nil
    with can W_recieve have st: "stop_requested ?c" by simp
    have "sum_list (map (\<lambda>w. worker_rank (wpc w)) ((workers s)[j := (workers s ! j)\<lparr>wpc := W_done\<rparr>]))
        < sum_list (map (\<lambda>w. worker_rank (wpc w)) (workers s))"
      using j W_recieve by (intro sum_list_map_update_less) simp_all
    with j W_recieve Nil st show ?thesis
      by (simp add: work_left_def worker_step_def Let_def channel_recieve_def)
  next
    case (Cons x xs)
    have 1: "sum_list (map (\<lambda>c. length (queue c)) ((worker_channels s)[j := ?c\<lparr>queue := xs\<rparr>]))
        < sum_list (map (\<lambda>c. length (queue c)) (worker_channels s))"
      using j Cons by (intro sum_list_map_update_less) simp_all
    have 2: "sum_list (map (\<lambda>w. worker_rank (wpc w)) ((workers s)[j := (workers s ! j)\<lparr>wdata := x\<rparr>]))
        = sum_list (map (\<lambda>w. worker_rank (wpc w)) (workers s))"
      using j by (intro sum_list_map_update_same) simp_all
    from j W_recieve Cons 1 2 show ?thesis
      by (simp add: work_left_def worker_step_def Let_def channel_recieve_def)
  qed
next
  case W_done
  with can show ?thesis by simp
qed

lemma progress:
  assumes live: "live s" and inv: "\<forall>i < nconsumers s. fan_inv S i s"
    and n: "1 < nconsumers s" and pc: "dpc s \<noteq> Returned"
  shows "\<exists>th. work_left (step th s) < work_left s"
proof -
  from inv n have inv0: "fan_inv S 0 s" by simp
  from live have st: "status s = None" by (simp add: live_def)
  have len: "length (worker_channels s) = nconsumers s" "length (workers s) = nconsumers s"
    using inv0 by (simp_all add: fan_inv_def)
  have disp: "\<exists>th. work_left (step th s) < work_left s"
    if "case dpc s of
        Recieve_loop \<Rightarrow> queue (channel s) \<noteq> [] \<or> stop_requested (channel s)
      | Fan_send k dr \<Rightarrow> int (length (queue (worker_channels s ! k))) < buffer_size (worker_channels s ! k)
          \<or> stop_requested (worker_channels s ! k)
      | Join_reader \<Rightarrow> reader s = [] \<and> reader_fatal s = None
      | Join_workers \<Rightarrow> list_all (\<lambda>w. wpc w = W_done) (workers s)
      | _ \<Rightarrow> True"
    using dispatcher_progress [OF inv0 pc that] st
    by (intro exI [of _ Dispatcher]) (simp add: step_def)
  have rdr: "\<exists>th. work_left (step th s) < work_left s"
    if "reader s \<noteq> []"
      "stop_requested (channel s) \<or> int (length (queue (channel s))) < buffer_size (channel s)"
    using reader_progress [OF that] st
    by (intro exI [of _ Reader_thread]) (simp add: step_def)
  have wrk: "\<exists>th. work_left (step th s) < work_left s"
    if "j < nconsumers s" "case wpc (workers s ! j) of
        W_pre_process \<Rightarrow> True
      | W_recieve \<Rightarrow> queue (worker_channels s ! j) \<noteq> [] \<or> stop_requested (worker_channels s ! j)
      | W_done \<Rightarrow> False" for j
    using worker_progress [of j s] that len st
    by (intro exI [of _ "Worker j"]) (simp add: step_def)
  show ?thesis
  proof (cases "dpc s")
    case Recieve_loop
    show ?thesis
    proof (cases "queue (channel s) \<noteq> [] \<or> stop_requested (channel s)")
      case True
      with Recieve_loop show ?thesis by (intro disp) simp
    next
      case False
      with live have "Send_stop \<in> set (reader s)" "0 < buffer_size (channel s)"
        by (simp_all add: live_def)
      with False show ?thesis by (intro rdr) auto
    qed
  next
    case (Fan_send k dr)
    let ?c = "worker_channels s ! k"
    from inv0 Fan_send have k: "k < nconsumers s" by (simp add: fan_inv_def)
    with inv have invk: "fan_inv S k s" by simp
    show ?thesis
    proof (cases "int (length (queue ?c)) < buffer_size ?c")
      case True
      with Fan_send show ?thesis by (intro disp) simp
    next
      case False
      from live k len have "0 < buffer_size ?c" by (simp add: live_def list_all_length)
      with False have q: "queue ?c \<noteq> []" by auto
      from invk Fan_send have "wpc (workers s ! k) \<noteq> W_done"
        by (auto simp: fan_inv_def split: if_splits)
      with q k show ?thesis by (intro wrk [of k]) (auto split: worker_pc.splits)
    qed
  next
    case Join_reader
    show ?thesis
    proof (cases "reader s")
      case Nil
      with Join_reader live show ?thesis by (intro disp) (simp add: live_def)
    next
      case Cons
      from inv0 Join_reader have "stop_requested (channel s)" by (simp add: fan_inv_def)
      with Cons show ?thesis by (intro rdr) simp_all
    qed
  next
    case Join_workers
    show ?thesis
    proof (cases "list_all (\<lambda>w. wpc w = W_done) (workers s)")
      case True
      with Join_workers show ?thesis by (intro disp) simp
    next
      case False
      then obtain j where j: "j < nconsumers s" "wpc (workers s ! j) \<noteq> W_done"
        using len by (auto simp: list_all_length)
      with inv have "fan_inv S j s" by simp
      with Join_workers have "stop_requested (worker_channels s ! j)" by (simp add: fan_inv_def)
      with j show ?thesis by (intro wrk [of j]) (auto split: worker_pc.splits)
    qed
  next
    case Returned
    with pc show ?thesis by simp
  qed (use inv0 in \<open>auto simp: fan_inv_def intro: disp\<close>)
qed

lemma nconsumers_step [simp]: "nconsumers (step th s) = nconsumers s"
  by (cases th)
     (auto simp: step_def reader_step_fields dispatcher_step_def deliver_def worker_step_def Let_def
        split: dispatcher_pc.splits option.splits worker_pc.splits if_splits)

lemma completes_from:
  assumes "live s" and "\<forall>i < nconsumers s. fan_inv S i s" and "1 < nconsumers s"
  shows "\<exists>sched. dpc (exec sched s) = Returned"
  using assms
proof (induction "work_left s" arbitrary: s rule: less_induct)
  case less
  show ?case
  proof (cases "dpc s = Returned")
    case True
    then have "dpc (exec [] s) = Returned" by simp
    then show ?thesis ..
  next
    case False
    from progress [OF less.prems(1,2,3) False]
    obtain th where th: "work_left (step th s) < work_left s" ..
    from less.prems have inv0: "fan_inv S 0 s" by simp
    have 1: "live (step th s)" by (rule live_step [OF less.prems(1) inv0])
    have 2: "\<forall>i < nconsumers (step th s). fan_inv S i (step th s)"
      using less.prems(2) by (simp add: fan_inv_step)
    have 3: "1 < nconsumers (step th s)" using less.prems(3) by simp
    from less.hyps [OF th 1 2 3]
    obtain sched where "dpc (exec sched (step th s)) = Returned" ..
    then have "dpc (exec (th # sched) s) = Returned" by simp
    then show ?thesis ..
  qed
qed

lemma exec_append: "exec (xs @ ys) s = exec ys (exec xs s)"
  by (induction xs arbitrary: s) auto

lemma nconsumers_exec [simp]: "nconsumers (exec sched s) = nconsumers s"
  by (induction sched arbitrary: s) auto

lemma live_exec:
  "live s \<Longrightarrow> fan_inv S 0 s \<Longrightarrow> live (exec sched s)"
proof (induction sched arbitrary: s)
  case Nil
  then show ?case by simp
next
  case (Cons th sched)
  from Cons.prems have "live (step th s)" "fan_inv S 0 (step th s)"
    by (auto intro: live_step fan_inv_step)
  then show ?case using Cons.IH by simp
qed

lemma live_init:
  "0 < buf \<Longrightarrow> Send_stop \<in> set (fst rd) \<Longrightarrow> snd rd = None \<Longrightarrow> live (init_system n buf rd)"
  by (simp add: live_def init_system_def new_channel_def list_all_length)

lemma fan_out_completes:
  assumes "1 < n" and "0 < buf" and "Send_stop \<in> set (fst rd)" and "snd rd = None"
  shows "\<exists>more. dpc (exec (sched @ more) (init_system n buf rd)) = Returned"
proof -
  let ?S = "map Some (sent_before_stop (fst rd))"
  let ?s = "exec sched (init_system n buf rd)"
  have n: "nconsumers ?s = n" by (simp add: init_system_def)
  from assms(1) have inv0: "fan_inv ?S 0 (init_system n buf rd)" by (intro fan_inv_init) simp_all
  have 1: "live ?s" by (rule live_exec [OF live_init [OF assms(2,3,4)] inv0])
  have 2: "\<forall>i < nconsumers ?s. fan_inv ?S i ?s"
  proof (intro allI impI)
    fix i assume "i < nconsumers ?s"
    with n have "i < n" by simp
    from fan_inv_exec [OF fan_inv_init [OF assms(1) this]] show "fan_inv ?S i ?s" .
  qed
  from completes_from [OF 1 2] assms(1) n
  obtain more where "dpc (exec more ?s) = Returned" by auto
  then show ?thesis by (auto simp: exec_append)
qed

lemma live_dispatcher_single:
  assumes "live s" and "single_pc_ok (dpc s)" and "dpc s = Post_process \<longrightarrow> data s \<noteq> None"
  shows "live (dispatcher_step s)"
proof (cases "dpc s")
  case Recieve_loop
  with assms show ?thesis
    by (auto simp: live_def dispatcher_step_def deliver_def channel_recieve_def
        split: option.splits list.splits if_splits)
qed (use assms in \<open>auto simp: live_def dispatcher_step_def\<close>)

lemma single_dispatcher_progress:
  assumes inv: "single_inv S s" and pc: "dpc s \<noteq> Returned"
    and can: "case dpc s of
        Recieve_loop \<Rightarrow> queue (channel s) \<noteq> [] \<or> stop_requested (channel s)
      | Post_process \<Rightarrow> data s \<noteq> None
      | Join_reader \<Rightarrow> reader s = [] \<and> reader_fatal s = None
      | _ \<Rightarrow> True"
  shows "work_left (dispatcher_step s) < work_left s"
proof (cases "dpc s")
  case Pre_process
  then show ?thesis by (simp add: work_left_def dispatcher_step_def)
next
  case Recieve_loop
  with inv can show ?thesis
    by (auto simp: single_inv_def work_left_def dispatcher_step_def deliver_def channel_recieve_def
        split: list.splits)
next
  case Drain_test
  with inv show ?thesis
    by (auto simp: single_inv_def work_left_def dispatcher_step_def channel_empty_def)
next
  case Post_process
  with can show ?thesis
    by (auto simp: work_left_def dispatcher_step_def)
next
  case Join_reader
  with inv can show ?thesis
    by (auto simp: single_inv_def work_left_def dispatcher_step_def)
qed (use inv pc in \<open>auto simp: single_inv_def\<close>)

lemma single_data:
  assumes inv: "single_inv (map Some ds) s" and "past_loop (dpc s)"
  shows "data s = (if ds = [] then None else Some (last ds))"
proof -
  from assms have "consumed 0 (trace s) = map Some ds"
    by (auto simp: single_inv_def source_rest_def)
  moreover from inv have "last_ptr (consumed 0 (trace s)) = data s" by (simp add: single_inv_def)
  ultimately show ?thesis by (auto simp: last_ptr_def last_map)
qed

lemma single_ends_from:
  assumes "live s" and "single_inv (map Some ds) s"
  shows "\<exists>sched. if ds = [] then status (exec sched s) = Some Null_dereference
           else dpc (exec sched s) = Returned \<and> status (exec sched s) = None"
  using assms
proof (induction "work_left s" arbitrary: s rule: less_induct)
  case less
  note live = less.prems(1) and inv = less.prems(2)
  from live have st: "status s = None" by (simp add: live_def)
  from inv have ok: "single_pc_ok (dpc s)" by (simp add: single_inv_def)
  have continue: ?case if th: "work_left (step th s) < work_left s" and l: "live (step th s)" for th
  proof -
    have "single_inv (map Some ds) (step th s)" by (rule single_inv_step [OF inv])
    from less.hyps [OF th l this] obtain sched where
      "if ds = [] then status (exec sched (step th s)) = Some Null_dereference
       else dpc (exec sched (step th s)) = Returned \<and> status (exec sched (step th s)) = None" ..
    then have "if ds = [] then status (exec (th # sched) s) = Some Null_dereference
       else dpc (exec (th # sched) s) = Returned \<and> status (exec (th # sched) s) = None" by simp
    then show ?thesis ..
  qed
  have disp: ?case
    if can: "case dpc s of
        Recieve_loop \<Rightarrow> queue (channel s) \<noteq> [] \<or> stop_requested (channel s)
      | Post_process \<Rightarrow> data s \<noteq> None
      | Join_reader \<Rightarrow> reader s = [] \<and> reader_fatal s = None
      | _ \<Rightarrow> True" and pc: "dpc s \<noteq> Returned"
  proof -
    from can have "dpc s = Post_process \<longrightarrow> data s \<noteq> None" by auto
    from live_dispatcher_single [OF live ok this] single_dispatcher_progress [OF inv pc can] st
    show ?thesis by (intro continue [of Dispatcher]) (simp_all add: step_def)
  qed
  have rdr: ?case
    if "reader s \<noteq> []"
      "stop_requested (channel s) \<or> int (length (queue (channel s))) < buffer_size (channel s)"
    using reader_progress [OF that] live_reader [OF live] st
    by (intro continue [of Reader_thread]) (simp_all add: step_def)
  show ?case
  proof (cases "dpc s")
    case Pre_process
    then show ?thesis by (intro disp) simp_all
  next
    case Recieve_loop
    show ?thesis
    proof (cases "queue (channel s) \<noteq> [] \<or> stop_requested (channel s)")
      case True
      with Recieve_loop show ?thesis by (intro disp) simp_all
    next
      case False
      with live have "Send_stop \<in> set (reader s)" "0 < buffer_size (channel s)"
        by (simp_all add: live_def)
      with False show ?thesis by (intro rdr) auto
    qed
  next
    case Drain_test
    then show ?thesis by (intro disp) simp_all
  next
    case Post_process
    from single_data [OF inv] Post_process
    have d: "data s = (if ds = [] then None else Some (last ds))" by simp
    show ?thesis
    proof (cases "ds = []")
      case True
      with d Post_process st have "status (exec [Dispatcher] s) = Some Null_dereference"
        by (simp add: step_def dispatcher_step_def)
      with True have "if ds = [] then status (exec [Dispatcher] s) = Some Null_dereference
         else dpc (exec [Dispatcher] s) = Returned \<and> status (exec [Dispatcher] s) = None"
        by simp
      then show ?thesis ..
    next
      case False
      with d Post_process show ?thesis by (intro disp) simp_all
    qed
  next
    case Join_reader
    show ?thesis
    proof (cases "reader s")
      case Nil
      with Join_reader live show ?thesis by (intro disp) (simp_all add: live_def)
    next
      case Cons
      from inv Join_reader have "stop_requested (channel s)" by (simp add: single_inv_def)
      with Cons show ?thesis by (intro rdr) simp_all
    qed
  next
    case Returned
    from inv Returned have "\<exists>d. data s = Some d" by (auto simp: single_inv_def)
    with single_data [OF inv] Returned have "ds \<noteq> []" by (auto split: if_splits)
    with Returned st have "if ds = [] then status (exec [] s) = Some Null_dereference
       else dpc (exec [] s) = Returned \<and> status (exec [] s) = None" by simp
    then show ?thesis ..
  qed (use ok in auto)
qed

lemma live_exec_single:
  "live s \<Longrightarrow> single_inv (map Some ds) s \<Longrightarrow> status (exec sched s) = None \<Longrightarrow> live (exec sched s)"
proof (induction sched arbitrary: s)
  case Nil
  then show ?case by simp
next
  case (Cons th sched)
  from Cons.prems(1) have st: "status s = None" by (simp add: live_def)
  have inv': "single_inv (map Some ds) (step th s)" by (rule single_inv_step [OF Cons.prems(2)])
  have "status (step th s) = None"
  proof (rule ccontr)
    assume "status (step th s) \<noteq> None"
    then have "\<And>sch. exec sch (step th s) = step th s"
    proof -
      fix sch show "exec sch (step th s) = step th s"
        using \<open>status (step th s) \<noteq> None\<close> by (induction sch) (simp_all add: step_def)
    qed
    with Cons.prems(3) \<open>status (step th s) \<noteq> None\<close> show False by simp
  qed
  have "live (step th s)"
  proof (cases th)
    case Reader_thread
    with Cons.prems(1) st show ?thesis by (simp add: step_def live_reader)
  next
    case Dispatcher
    from Cons.prems(2) have ok: "single_pc_ok (dpc s)" by (simp add: single_inv_def)
    have "dpc s = Post_process \<longrightarrow> data s \<noteq> None"
      using \<open>status (step th s) = None\<close> Dispatcher st
      by (auto simp: step_def dispatcher_step_def split: option.splits)
    from live_dispatcher_single [OF Cons.prems(1) ok this] Dispatcher st show ?thesis
      by (simp add: step_def)
  next
    case (Worker j)
    with Cons.prems(1) st show ?thesis by (simp add: step_def live_worker)
  qed
  from Cons.IH [OF this inv'] Cons.prems(3) show ?case by simp
qed

lemma single_run_ends:
  assumes "0 < buf" and "Send_stop \<in> set (fst rd)" and "snd rd = None"
    and "status (exec sched (init_system 1 buf rd)) = None"
  shows "\<exists>more. if sent_before_stop (fst rd) = []
           then status (exec (sched @ more) (init_system 1 buf rd)) = Some Null_dereference
           else dpc (exec (sched @ more) (init_system 1 buf rd)) = Returned \<and>
                status (exec (sched @ more) (init_system 1 buf rd)) = None"
proof -
  let ?s = "exec sched (init_system 1 buf rd)"
  have inv0: "single_inv (map Some (sent_before_stop (fst rd))) (init_system 1 buf rd)"
    by (rule single_inv_init)
  have 1: "live ?s" by (rule live_exec_single [OF live_init [OF assms(1,2,3)] inv0 assms(4)])
  have 2: "single_inv (map Some (sent_before_stop (fst rd))) ?s"
    by (rule single_inv_exec [OF inv0])
  from single_ends_from [OF 1 2] show ?thesis unfolding exec_append .
qed

lemma read_frames_no_fatal:
  "read_frames p st fs e = (evs, st', ex) \<Longrightarrow> skip p \<noteq> 0 \<Longrightarrow> ex \<noteq> Fatal err"
proof (induction fs arbitrary: st evs st' ex)
  case Nil
  then show ?case by (cases e) auto
next
  case (Cons f fs)
  then show ?case
    by (auto simp: Let_def is_frame_valid_general split: if_splits prod.splits bool.splits)
qed

lemma read_files_no_fatal:
  "read_files p fsys st files = (evs, st', ex) \<Longrightarrow> skip p \<noteq> 0 \<Longrightarrow> ex \<noteq> Fatal err"
proof (induction files arbitrary: st evs st' ex)
  case Nil
  then show ?case by simp
next
  case (Cons fname rest)
  then show ?case
    by (auto split: traj_file.splits prod.splits loop_exit.splits if_splits
        dest: read_frames_no_fatal)
qed

lemma reader_no_fatal: "skip p \<noteq> 0 \<Longrightarrow> snd (reader_thread_body p fsys) = None"
proof -
  assume s: "skip p \<noteq> 0"
  obtain evs0 st ex where rfs: "read_files p fsys reader_init (traj_files p) = (evs0, st, ex)"
    by (cases "read_files p fsys reader_init (traj_files p)") auto
  from read_files_no_fatal [OF rfs s] show ?thesis
    by (cases ex) (auto simp: reader_thread_body_eq [OF rfs])
qed

lemma reader_sends_stop:
  "snd (reader_thread_body p fsys) = None \<Longrightarrow> Send_stop \<in> set (fst (reader_thread_body p fsys))"
  by (auto simp: reader_thread_body_def split: prod.splits loop_exit.splits)

lemma sent_before_stop_append:
  "Send_stop \<notin> set xs \<Longrightarrow> sent_before_stop (xs @ ys) = sent xs @ sent_before_stop ys"
  by (induction xs rule: sent_before_stop.induct) auto

lemma sent_before_stop_no_stop: "Send_stop \<notin> set xs \<Longrightarrow> sent_before_stop xs = sent xs"
  using sent_before_stop_append [of xs "[]"] by simp

lemma read_frames_stop_last:
  "read_frames p st fs e = (evs, st', ex) \<Longrightarrow> \<not> finished st \<Longrightarrow>
   (if finished st' then \<exists>xs. evs = xs @ [Send_stop] \<and> Send_stop \<notin> set xs
    else Send_stop \<notin> set evs)"
proof (induction fs arbitrary: st evs st' ex)
  case Nil
  then show ?case by (cases e) auto
next
  case (Cons f fs)
  show ?case
  proof (cases "is_end_of_interval p (abs_frame st + 1) (frame_time p (abs_frame st + 1) f)")
    case True
    with Cons.prems have "evs = [Read (Some f)] @ [Send_stop]" "finished st'"
      by (auto simp: Let_def)
    then show ?thesis by auto
  next
    case False
    show ?thesis
    proof (cases "is_frame_valid p (abs_frame st + 1) (frame_time p (abs_frame st + 1) f)")
      case (Inl err)
      with False Cons.prems show ?thesis by (auto simp: Let_def)
    next
      case (Inr ok)
      define st1 where "st1 = (if ok
        then accept (st\<lparr>abs_frame := abs_frame st + 1\<rparr>) (frame_time p (abs_frame st + 1) f)
        else st\<lparr>abs_frame := abs_frame st + 1\<rparr>)"
      define pre where "pre = (if ok
        then [Read (Some f), Send (fill_container p st1 f (frame_time p (abs_frame st + 1) f))]
        else [Read (Some f)])"
      obtain evs2 st2 ex2 where rf: "read_frames p st1 fs e = (evs2, st2, ex2)"
        by (cases "read_frames p st1 fs e") auto
      from Cons.prems(2) have nf: "\<not> finished st1" by (simp add: st1_def)
      from Inr False Cons.prems(1) rf have res: "evs = pre @ evs2" "st' = st2"
        by (auto simp: Let_def st1_def pre_def split: if_splits)
      have pre: "Send_stop \<notin> set pre" by (simp add: pre_def)
      from Cons.IH [OF rf nf] res pre show ?thesis
        by (auto split: if_splits)
    qed
  qed
qed

lemma read_files_stop_last:
  "read_files p fsys st files = (evs, st', ex) \<Longrightarrow> \<not> finished st \<Longrightarrow>
   (if finished st' then \<exists>xs. evs = xs @ [Send_stop] \<and> Send_stop \<notin> set xs
    else Send_stop \<notin> set evs)"
proof (induction files arbitrary: st evs st' ex)
  case Nil
  then show ?case by simp
next
  case (Cons fname rest)
  show ?case
  proof (cases "fsys fname")
    case (Open_throws m)
    with Cons.prems show ?thesis by auto
  next
    case (Opened fs e)
    obtain evs1 st1 ex1 where rf: "read_frames p st fs e = (evs1, st1, ex1)"
      by (cases "read_frames p st fs e") auto
    note s1 = read_frames_stop_last [OF rf Cons.prems(2)]
    show ?thesis
    proof (cases "ex1 = Normal \<and> \<not> finished st1")
      case True
      obtain evs2 st2 ex2 where rfs: "read_files p fsys st1 rest = (evs2, st2, ex2)"
        by (cases "read_files p fsys st1 rest") auto
      from True have nf: "\<not> finished st1" by simp
      from Cons.prems(1) Opened rf rfs True
      have res: "evs = (Io_factory fname # evs1) @ evs2" "st' = st2" by auto
      from s1 nf have "Send_stop \<notin> set (Io_factory fname # evs1)" by simp
      with Cons.IH [OF rfs nf] res show ?thesis
        by (auto split: if_splits)
    next
      case False
      with Cons.prems(1) Opened rf have res: "evs = Io_factory fname # evs1" "st' = st1"
        by (auto split: loop_exit.splits if_splits)
      with s1 show ?thesis
        by (auto split: if_splits simp: Cons_eq_append_conv)
    qed
  qed
qed

lemma reader_sent_before_stop:
  "sent_before_stop (fst (reader_thread_body p fsys)) = sent (fst (reader_thread_body p fsys))"
proof -
  obtain evs0 st ex where rfs: "read_files p fsys reader_init (traj_files p) = (evs0, st, ex)"
    by (cases "read_files p fsys reader_init (traj_files p)") auto
  have nf: "\<not> finished reader_init" by (simp add: reader_init_def)
  note sl = read_files_stop_last [OF rfs nf]
  show ?thesis
  proof (cases "finished st")
    case True
    with sl obtain xs where xs: "evs0 = xs @ [Send_stop]" "Send_stop \<notin> set xs" by auto
    with True read_files_ends [OF rfs nf] have "ex = Normal" by simp
    with xs show ?thesis
      by (simp add: reader_thread_body_eq [OF rfs] sent_before_stop_append)
  next
    case False
    with sl have "Send_stop \<notin> set evs0" by simp
    then show ?thesis
      by (cases ex)
         (simp_all add: reader_thread_body_eq [OF rfs] sent_before_stop_append
            sent_before_stop_no_stop)
  qed
qed

lemma no_frames_never_returns:
  assumes "sent_before_stop (fst rd) = []"
  shows "dpc (exec sched (init_system 1 buf rd)) \<notin> {Join_reader, Returned}"
proof
  let ?s = "exec sched (init_system 1 buf rd)"
  assume pc: "dpc ?s \<in> {Join_reader, Returned}"
  have inv: "single_inv (map Some []) ?s"
    using single_inv_exec [OF single_inv_init, of rd sched buf] assms by simp
  from pc have "past_loop (dpc ?s)" by auto
  from single_data [OF inv this] have "data ?s = None" by simp
  moreover from inv pc have "\<exists>d. data ?s = Some d" by (auto simp: single_inv_def)
  ultimately show False by simp
qed

lemma single_run_post_process:
  assumes "dpc (exec sched (init_system 1 buf rd)) \<in> {Join_reader, Returned}"
  shows "sent_before_stop (fst rd) \<noteq> [] \<and>
    last (trace (exec sched (init_system 1 buf rd))) =
      Post_process_handler 0 (Some (frame_info (last (sent_before_stop (fst rd)))))"
proof -
  let ?s = "exec sched (init_system 1 buf rd)"
  have inv: "single_inv (map Some (sent_before_stop (fst rd))) ?s"
    by (rule single_inv_exec [OF single_inv_init])
  from assms have pl: "past_loop (dpc ?s)" by auto
  from inv assms obtain d tr where d: "data ?s = Some d"
    "trace ?s = tr @ [Post_process_handler 0 (Some (frame_info d))]"
    by (auto simp: single_inv_def)
  with single_data [OF inv pl] show ?thesis by (auto split: if_splits)
qed

subsection \<open>The two dispatch paths\<close>

text \<open>
  C5: with two or more consumers, whatever the reader does and however the threads are
  scheduled, at every moment of the run and for each consumer \<open>i\<close>:
  what the dispatcher has done on the channel of \<open>i\<close> is a beginning of: send the items
  of the reader, in the reader's order, then send stop once;
  what the channel of \<open>i\<close> has received (the items its consumer has taken from it, then
  the items still in its queue) is a beginning of the reader's sequence, and all of it
  as soon as the channel is closed;
  when the dispatcher has left its loops (it waits for the threads, or has returned) it
  has done all its sends, the channel is closed and has received the whole sequence;
  when \<^verbatim>\<open>run\<close> has returned the queue is empty and consumer \<open>i\<close> was given \<open>pre_process\<close>,
  each item of the reader in order, and \<open>post_process\<close> with the metadata of the last.
  The items of the reader are those it sends before its stop; under the channel of the
  specification none is left to drain after the receive that reports the stop. And the
  run can always be completed: if the buffers hold an item at least and the reader sends
  stop and has no fatal error, every schedule has a continuation after which \<^verbatim>\<open>run\<close> has
  returned.
\<close>

theorem fan_out_delivers:
  assumes "1 < n" and "i < n"
  shows "(let s = exec sched (init_system n buf rd);
              S = map Some (sent_before_stop (fst rd));
              ch = worker_channels s ! i
          in (\<exists>rest. worker_ops i (trace s) @ rest = map Op_send S @ [Op_send_stop]) \<and>
             (\<exists>rest. consumed i (trace s) @ queue ch @ rest = S) \<and>
             (stop_requested ch \<longrightarrow> consumed i (trace s) @ queue ch = S) \<and>
             (dpc s \<in> {Join_reader, Join_workers, Returned} \<longrightarrow>
                worker_ops i (trace s) = map Op_send S @ [Op_send_stop] \<and>
                stop_requested ch \<and> consumed i (trace s) @ queue ch = S) \<and>
             (dpc s = Returned \<longrightarrow>
                queue ch = [] \<and> consumed i (trace s) = S \<and>
                calls i (trace s) =
                  Pre_process_handler i # map (Consume_frame i) S @
                  [Post_process_handler i (map_option frame_info (last_ptr S))]) \<and>
             (0 < buf \<and> Send_stop \<in> set (fst rd) \<and> snd rd = None \<longrightarrow>
                (\<exists>more. dpc (exec (sched @ more) (init_system n buf rd)) = Returned)))"
proof -
  let ?s = "exec sched (init_system n buf rd)"
  let ?S = "map Some (sent_before_stop (fst rd))"
  let ?ch = "worker_channels ?s ! i"
  have inv: "fan_inv ?S i ?s"
    by (rule fan_inv_exec [OF fan_inv_init [OF assms(1,2)]])
  then have S: "forwarded i (trace ?s) @ pending_for i (dpc ?s) (data ?s) @ source_rest ?s = ?S"
    and ops: "worker_ops i (trace ?s) =
      map Op_send (forwarded i (trace ?s)) @ (if closed_for i (dpc ?s) then [Op_send_stop] else [])"
    and past: "past_loop (dpc ?s) \<Longrightarrow> queue (channel ?s) = [] \<and> stop_requested (channel ?s)"
    and stop: "stop_requested ?ch = closed_for i (dpc ?s)"
    and got: "consumed i (trace ?s) @ queue ?ch = forwarded i (trace ?s)"
    and fin: "wpc (workers ?s ! i) = W_done \<Longrightarrow> queue ?ch = []"
    and ret: "dpc ?s = Returned \<Longrightarrow> wpc (workers ?s ! i) = W_done"
    and cls: "calls i (trace ?s) = worker_calls i (wpc (workers ?s ! i)) (consumed i (trace ?s))"
    by (simp_all add: fan_inv_def)
  have closed: "forwarded i (trace ?s) = ?S" if "closed_for i (dpc ?s)"
  proof -
    from that have "past_loop (dpc ?s)" "pending_for i (dpc ?s) (data ?s) = []"
      by (cases "dpc ?s"; simp)+
    with S past show ?thesis by (simp add: source_rest_def)
  qed
  have 1: "\<exists>rest. worker_ops i (trace ?s) @ rest = map Op_send ?S @ [Op_send_stop]"
  proof (cases "closed_for i (dpc ?s)")
    case True
    with ops closed show ?thesis by simp
  next
    case False
    with ops have "worker_ops i (trace ?s) @
        (map Op_send (pending_for i (dpc ?s) (data ?s) @ source_rest ?s) @ [Op_send_stop]) =
      map Op_send (forwarded i (trace ?s) @ pending_for i (dpc ?s) (data ?s) @ source_rest ?s) @ [Op_send_stop]"
      by simp
    with S show ?thesis by metis
  qed
  have 2: "\<exists>rest. consumed i (trace ?s) @ queue ?ch @ rest = ?S"
  proof -
    from got S have "consumed i (trace ?s) @ queue ?ch @
        (pending_for i (dpc ?s) (data ?s) @ source_rest ?s) = ?S"
      by (metis append.assoc)
    then show ?thesis by blast
  qed
  have 3: "consumed i (trace ?s) @ queue ?ch = ?S" if "stop_requested ?ch"
    using that stop got closed by simp
  have 4: "worker_ops i (trace ?s) = map Op_send ?S @ [Op_send_stop] \<and>
      stop_requested ?ch \<and> consumed i (trace ?s) @ queue ?ch = ?S"
    if "dpc ?s \<in> {Join_reader, Join_workers, Returned}"
  proof -
    from that have "closed_for i (dpc ?s)" by auto
    with ops closed stop got show ?thesis by simp
  qed
  have 5: "queue ?ch = [] \<and> consumed i (trace ?s) = ?S \<and>
      calls i (trace ?s) =
        Pre_process_handler i # map (Consume_frame i) ?S @
        [Post_process_handler i (map_option frame_info (last_ptr ?S))]"
    if "dpc ?s = Returned"
  proof -
    from that ret have w: "wpc (workers ?s ! i) = W_done" by simp
    with fin have q: "queue ?ch = []" by simp
    from that have "dpc ?s \<in> {Join_reader, Join_workers, Returned}" by simp
    with 4 q have c: "consumed i (trace ?s) = ?S" by simp
    from cls w c q show ?thesis by simp
  qed
  have 6: "\<exists>more. dpc (exec (sched @ more) (init_system n buf rd)) = Returned"
    if "0 < buf \<and> Send_stop \<in> set (fst rd) \<and> snd rd = None"
    using fan_out_completes [OF assms(1), of buf rd sched] that by simp
  from 1 2 3 4 5 6 show ?thesis unfolding Let_def by blast
qed

theorem fan_out_delivers_witness:
  "dpc (exec (round_robin 3 20) (init_system 3 1 (example_source 3))) = Returned \<and>
   worker_ops 2 (trace (exec (round_robin 3 20) (init_system 3 1 (example_source 3)))) =
     [Op_send (Some (example_container 0)), Op_send (Some (example_container 1)),
      Op_send (Some (example_container 2)), Op_send_stop] \<and>
   queue (worker_channels (exec (round_robin 3 20) (init_system 3 1 (example_source 3))) ! 2) = [] \<and>
   consumed 2 (trace (exec (round_robin 3 20) (init_system 3 1 (example_source 3)))) =
     [Some (example_container 0), Some (example_container 1), Some (example_container 2)] \<and>
   calls 2 (trace (exec (round_robin 3 20) (init_system 3 1 (example_source 3)))) =
     [Pre_process_handler 2, Consume_frame 2 (Some (example_container 0)),
      Consume_frame 2 (Some (example_container 1)), Consume_frame 2 (Some (example_container 2)),
      Post_process_handler 2 (Some (frame_info (example_container 2)))] \<and>
   dpc (exec (replicate 4 Reader_thread @ replicate 20 Dispatcher)
     (init_system 3 3 (example_source 3))) = Join_workers \<and>
   consumed 2 (trace (exec (replicate 4 Reader_thread @ replicate 20 Dispatcher)
     (init_system 3 3 (example_source 3)))) = [] \<and>
   queue (worker_channels (exec (replicate 4 Reader_thread @ replicate 20 Dispatcher)
     (init_system 3 3 (example_source 3))) ! 2) =
     [Some (example_container 0), Some (example_container 1), Some (example_container 2)]"
proof -
  have n: "(1::nat) < 3" and i: "(2::nat) < 3" by simp_all
  have d: "dpc (exec (round_robin 3 20) (init_system 3 1 (example_source 3))) = Returned"
    by code_simp
  have s: "sent_before_stop (fst (example_source 3)) =
      [example_container 0, example_container 1, example_container 2]"
    by code_simp
  have l: "(0::int) < 1 \<and> Send_stop \<in> set (fst (example_source 3)) \<and> snd (example_source 3) = None"
    by code_simp
  have d': "dpc (exec (replicate 4 Reader_thread @ replicate 20 Dispatcher)
      (init_system 3 3 (example_source 3))) = Join_workers"
    by code_simp
  have c': "consumed 2 (trace (exec (replicate 4 Reader_thread @ replicate 20 Dispatcher)
      (init_system 3 3 (example_source 3)))) = []"
    by code_simp
  from fan_out_delivers [OF n i, of "round_robin 3 20" 1 "example_source 3"] d s l
  have a: "worker_ops 2 (trace (exec (round_robin 3 20) (init_system 3 1 (example_source 3)))) =
     [Op_send (Some (example_container 0)), Op_send (Some (example_container 1)),
      Op_send (Some (example_container 2)), Op_send_stop] \<and>
   queue (worker_channels (exec (round_robin 3 20) (init_system 3 1 (example_source 3))) ! 2) = [] \<and>
   consumed 2 (trace (exec (round_robin 3 20) (init_system 3 1 (example_source 3)))) =
     [Some (example_container 0), Some (example_container 1), Some (example_container 2)] \<and>
   calls 2 (trace (exec (round_robin 3 20) (init_system 3 1 (example_source 3)))) =
     [Pre_process_handler 2, Consume_frame 2 (Some (example_container 0)),
      Consume_frame 2 (Some (example_container 1)), Consume_frame 2 (Some (example_container 2)),
      Post_process_handler 2 (Some (frame_info (example_container 2)))]"
    by (simp add: Let_def last_ptr_def)
  from fan_out_delivers [OF n i, of "replicate 4 Reader_thread @ replicate 20 Dispatcher" 3
      "example_source 3"] d' c' s
  have b: "queue (worker_channels (exec (replicate 4 Reader_thread @ replicate 20 Dispatcher)
     (init_system 3 3 (example_source 3))) ! 2) =
     [Some (example_container 0), Some (example_container 1), Some (example_container 2)]"
    by (simp add: Let_def)
  from a b d d' c' show ?thesis by simp
qed

text \<open>
  When both runs return, consumer 0 was given the same calls on the two paths:
  \<open>pre_process\<close>, each item of the reader in order, and \<open>post_process\<close> with the metadata of
  the last; a run with one consumer returns only if the reader delivered an item.
\<close>

lemma single_returned_calls:
  assumes "dpc (exec sched (init_system 1 buf rd)) = Returned"
  shows "calls 0 (trace (exec sched (init_system 1 buf rd))) =
         Pre_process_handler 0 # map (Consume_frame 0) (map Some (sent_before_stop (fst rd))) @
         [Post_process_handler 0
            (map_option frame_info (last_ptr (map Some (sent_before_stop (fst rd)))))]"
proof -
  let ?s = "exec sched (init_system 1 buf rd)"
  have inv: "single_inv (map Some (sent_before_stop (fst rd))) ?s"
    by (rule single_inv_exec [OF single_inv_init])
  from assms have "dpc ?s \<in> {Post_process, Join_reader, Returned}" by simp
  from single_consumed [OF this] inv assms show ?thesis by (simp add: single_inv_def)
qed

lemma fan_returned_calls:
  assumes "1 < n" and "i < n" and "dpc (exec sched (init_system n buf rd)) = Returned"
  shows "calls i (trace (exec sched (init_system n buf rd))) =
         Pre_process_handler i # map (Consume_frame i) (map Some (sent_before_stop (fst rd))) @
         [Post_process_handler i
            (map_option frame_info (last_ptr (map Some (sent_before_stop (fst rd)))))]"
proof -
  let ?s = "exec sched (init_system n buf rd)"
  have inv: "fan_inv (map Some (sent_before_stop (fst rd))) i ?s"
    by (rule fan_inv_exec [OF fan_inv_init [OF assms(1,2)]])
  with assms(3) have w: "wpc (workers ?s ! i) = W_done" by (simp add: fan_inv_def)
  from fan_consumed [OF assms(1,2) w] inv w show ?thesis by (simp add: fan_inv_def)
qed

lemma dispatch_paths_agree:
  assumes "dpc (exec sched1 (init_system 1 buf1 rd)) = Returned"
    and "dpc (exec sched2 (init_system 2 buf2 rd)) = Returned"
  shows "calls 0 (trace (exec sched1 (init_system 1 buf1 rd))) =
         calls 0 (trace (exec sched2 (init_system 2 buf2 rd)))"
    and "sent_before_stop (fst rd) \<noteq> []"
proof -
  from single_returned_calls [OF assms(1)] fan_returned_calls [OF _ _ assms(2), of 0]
  show "calls 0 (trace (exec sched1 (init_system 1 buf1 rd))) =
        calls 0 (trace (exec sched2 (init_system 2 buf2 rd)))" by simp
  from assms(1) have "dpc (exec sched1 (init_system 1 buf1 rd)) \<in> {Join_reader, Returned}"
    by simp
  from single_run_post_process [OF this] show "sent_before_stop (fst rd) \<noteq> []" by simp
qed

lemma dispatch_paths_agree_example:
  "dpc (exec (round_robin 0 30) (init_system 1 2 (example_source 10))) = Returned \<and>
   dpc (exec (round_robin 2 50) (init_system 2 2 (example_source 10))) = Returned \<and>
   length (calls 0 (trace (exec (round_robin 0 30) (init_system 1 2 (example_source 10))))) = 12 \<and>
   calls 0 (trace (exec (round_robin 0 30) (init_system 1 2 (example_source 10)))) =
   calls 0 (trace (exec (round_robin 2 50) (init_system 2 2 (example_source 10))))"
proof -
  have 1: "dpc (exec (round_robin 0 30) (init_system 1 2 (example_source 10))) = Returned"
    by code_simp
  have 2: "dpc (exec (round_robin 2 50) (init_system 2 2 (example_source 10))) = Returned"
    by code_simp
  have 3: "length (calls 0 (trace (exec (round_robin 0 30) (init_system 1 2 (example_source 10))))) = 12"
    by code_simp
  from dispatch_paths_agree(1) [OF 1 2] 1 2 3 show ?thesis by simp
qed

lemmas run_setup_simps =
  run_setup_def get_value_def example_trajectory_def example_options_def example_formats_def
  files_to_load_def Let_def

text \<open>
  C1: after the channel reports closed and empty, \<^verbatim>\<open>post_process\<close> is to get the metadata
  of the last container delivered, or an explicit "no frames" value. The source
  dereferences its pointer \<^verbatim>\<open>data\<close> unconditionally: in the run below (one consumer,
  seven frames read, \<open>first_frame = 10\<close> so that the filter rejects them all) the pointer
  is still empty and the run ends in a null dereference, with no frame consumed.
\<close>

theorem post_process_without_frames:
  "map_sum id (\<lambda>s. (status s, consumed 0 (trace s)))
     (snd (run 1 (-1) example_formats (\<lambda>f. None) example_files example_options
        (example_trajectory\<lparr>int_values := [''first_frame'' \<mapsto> 10]\<rparr>)
        (replicate 12 Reader_thread @ replicate 4 Dispatcher)))
   = Inr (Some Null_dereference, [])"
proof -
  let ?trj = "example_trajectory\<lparr>int_values := [''first_frame'' \<mapsto> 10]\<rparr>"
  let ?p = "get_parameters ?trj [''a.xtc'', ''b.xtc''] (-1)"
  have su: "run_setup 1 (-1) example_formats (\<lambda>f. None) example_options ?trj =
      ([System_clear, Set_buffer_size 10, Start_reader_thread], Inr (?p, 10))"
    by (simp add: run_setup_simps get_parameters_def)
  have rd: "reader_thread_body ?p example_files =
      ([Io_factory ''a.xtc'', Read (Some (example_frame 100)), Read (Some (example_frame 101)),
        Read (Some (example_frame 102)), Read (Some (example_frame 103)), Read None,
        Io_factory ''b.xtc'', Read (Some (example_frame 104)), Read (Some (example_frame 105)),
        Read (Some (example_frame 106)), Read None, Send_stop], None)"
    by (simp add: get_parameters_def get_value_def example_trajectory_def example_simps)
  have ex: "(\<lambda>s. (status s, consumed 0 (trace s)))
      (exec (replicate 12 Reader_thread @ replicate 4 Dispatcher)
        (init_system 1 10
          ([Io_factory a, Read r0, Read r1, Read r2, Read r3, Read r4,
            Io_factory b, Read r5, Read r6, Read r7, Read r8, Send_stop], None)))
      = (Some Null_dereference, [])" for a b r0 r1 r2 r3 r4 r5 r6 r7 r8
    by code_simp
  show ?thesis by (simp add: run_def su rd ex del: One_nat_def)
qed

text \<open>
  C3: a read failure is to end the run normally with the frames delivered before it.
  The reader thread does catch the failure (it sends stop, reports and returns: nothing
  is left for it to do and it has no fatal error), but with one consumer and a failure at
  the first read the dispatcher then dereferences its empty pointer at \<^verbatim>\<open>post_process\<close>.
\<close>

theorem read_failure_before_first_frame:
  "map_sum id (\<lambda>s. (reader s, reader_fatal s, status s, dpc s))
     (snd (run 1 (-1) example_formats (\<lambda>f. None) example_files example_options
        (example_trajectory\<lparr>unnamed_values := [''c.xtc'']\<rparr>)
        (replicate 4 Reader_thread @ replicate 4 Dispatcher)))
   = Inr ([], None, Some Null_dereference, Post_process)"
proof -
  let ?trj = "example_trajectory\<lparr>unnamed_values := [''c.xtc'']\<rparr>"
  let ?p = "get_parameters ?trj [''c.xtc''] (-1)"
  have su: "run_setup 1 (-1) example_formats (\<lambda>f. None) example_options ?trj =
      ([System_clear, Set_buffer_size 10, Start_reader_thread], Inr (?p, 10))"
    by (simp add: run_setup_simps get_parameters_def)
  have rd: "reader_thread_body ?p example_files =
      ([Io_factory ''c.xtc'', Read None, Send_stop, Cout_error ''bad frame''], None)"
    by (simp add: get_parameters_def get_value_def example_trajectory_def example_simps)
  have ex: "(\<lambda>s. (reader s, reader_fatal s, status s, dpc s))
      (exec (replicate 4 Reader_thread @ replicate 4 Dispatcher)
        (init_system 1 10 ([Io_factory a, Read None, Send_stop, Cout_error m], None)))
      = ([], None, Some Null_dereference, Post_process)" for a m
    by code_simp
  show ?thesis by (simp add: run_def su rd ex del: One_nat_def)
qed


end
